theory Spec2Isabelle
  imports Main "HOL-Library.Word" "HOL-Library.Char_ord" "HOL-Library.List_Lexorder"
    "HOL-Library.Sublist"
begin

section \<open>The autocomplete engine of \<open>word serch/autocomplete.cpp\<close>\<close>

subsection \<open>Data model\<close>

text \<open>
  Frequencies are \<open>long long\<close>: 64-bit words read as two's complement (\<open>sint\<close>).
  Addition wraps around, which is what the compiled code does on an overflow that the
  language leaves undefined. Word indices are the \<open>int\<close> of the source; the conversion
  of \<open>dict.size()\<close> to \<open>int\<close> is taken to be exact (fewer than \<open>2^31\<close> words).
\<close>

type_synonym freq = "64 word"

text \<open>
  \<open>struct TrieNode\<close>: the children (an \<open>unordered_map<char, TrieNode*>\<close> whose
  pointers are owned by the node and are never null: every stored pointer comes from
  \<open>new TrieNode()\<close>), the word index (\<open>-1\<close> when no word ends here) and the per-node
  top-K list.
\<close>

datatype trie = Node (children: "char \<Rightarrow> trie option") (wordIndex: int) (topK: "int list")

definition newTrieNode :: trie where
  "newTrieNode = Node (\<lambda>c. None) (- 1) []"

definition DEFAULT_PER_NODE_K :: int where
  "DEFAULT_PER_NODE_K = 10"

record engine =
  root :: trie
  perNodeK :: int
  dict :: "string list"
  freqs :: "freq list"
  wordSeen :: "bool list"
  wordToIndex :: "string \<Rightarrow> int option"

definition AutocompleteEngine :: "int \<Rightarrow> engine" where
  "AutocompleteEngine k =
     \<lparr>root = newTrieNode, perNodeK = k, dict = [], freqs = [], wordSeen = [],
      wordToIndex = (\<lambda>w. None)\<rparr>"

subsection \<open>Ranking: \<open>RankHelper::higher\<close>\<close>

text \<open>
  The frequency reads are guarded by the range check of the source, the two reads of
  \<open>dict\<close> are not (an index out of range is undefined behaviour there; the theorems
  below only use \<open>higher\<close> on indices that are in range). \<open>sa < sb\<close> on
  \<open>std::string\<close> compares bytes as unsigned values, lexicographically, a proper prefix
  first: the order of \<open>char list\<close> here.
\<close>

definition higher :: "freq list \<Rightarrow> string list \<Rightarrow> int \<Rightarrow> int \<Rightarrow> bool" where
  "higher fs d a b =
     (let fa = (if 0 \<le> a \<and> a < int (length fs) then fs ! nat a else 0);
          fb = (if 0 \<le> b \<and> b < int (length fs) then fs ! nat b else 0)
      in if fa \<noteq> fb then sint fb < sint fa else d ! nat a < d ! nat b)"

text \<open>
  \<open>std::sort\<close> with a comparator. The algorithm of the library is not fixed, but for a
  comparator that is a strict total order on the elements the result is the one sorted
  permutation (lemma \<open>sort_by_unique\<close> below), which insertion computes.
\<close>

fun insort_by :: "('a \<Rightarrow> 'a \<Rightarrow> bool) \<Rightarrow> 'a \<Rightarrow> 'a list \<Rightarrow> 'a list" where
  "insort_by lt x [] = [x]"
| "insort_by lt x (y # ys) = (if lt x y then x # y # ys else y # insort_by lt x ys)"

definition sort_by :: "('a \<Rightarrow> 'a \<Rightarrow> bool) \<Rightarrow> 'a list \<Rightarrow> 'a list" where
  "sort_by lt xs = foldr (insort_by lt) xs []"

subsection \<open>Term registry: \<open>ensureWordIndex\<close>\<close>

definition ensureWordIndex :: "string \<Rightarrow> engine \<Rightarrow> int \<times> engine" where
  "ensureWordIndex word e =
     (case wordToIndex e word of
        Some i \<Rightarrow> (i, e)
      | None \<Rightarrow>
          (let idx = int (length (dict e))
           in (idx, e\<lparr>dict := dict e @ [word], freqs := freqs e @ [0],
                      wordSeen := wordSeen e @ [False],
                      wordToIndex := (wordToIndex e)(word \<mapsto> idx)\<rparr>)))"

subsection \<open>Cache maintenance: \<open>updateTopKForWord\<close>\<close>

text \<open>
  \<open>if ((int)v.size() > perNodeK) v.resize(perNodeK)\<close>: with a negative \<open>perNodeK\<close> the
  argument of \<open>resize\<close> converts to a size beyond \<open>max_size()\<close> and the call throws
  \<open>std::length_error\<close>, which nothing in the program catches: \<open>None\<close>.
\<close>

definition trimTopK :: "int \<Rightarrow> int list \<Rightarrow> int list option" where
  "trimTopK k v =
     (if int (length v) > k then (if k < 0 then None else Some (take (nat k) v)) else Some v)"

text \<open>
  The loop of \<open>updateTopKForWord\<close> below one node: for each character the child is
  created when missing and entered, and the list of the child (never of the node the
  walk starts from) gets the index, is sorted and trimmed. After the last character the
  node reached gets \<open>wordIndex = idx\<close>.
\<close>

fun updateTopKWalk ::
  "(int \<Rightarrow> int \<Rightarrow> bool) \<Rightarrow> int \<Rightarrow> int \<Rightarrow> string \<Rightarrow> trie \<Rightarrow> trie option" where
  "updateTopKWalk rh k idx [] (Node m w v) = Some (Node m idx v)"
| "updateTopKWalk rh k idx (c # cs) (Node m w v) =
     (let child = (case m c of None \<Rightarrow> newTrieNode | Some t \<Rightarrow> t);
          v1 = (if idx \<in> set (topK child) then topK child else topK child @ [idx]);
          v2 = sort_by rh v1
      in case trimTopK k v2 of
           None \<Rightarrow> None
         | Some v3 \<Rightarrow>
             (case updateTopKWalk rh k idx cs (Node (children child) (wordIndex child) v3) of
                None \<Rightarrow> None
              | Some child' \<Rightarrow> Some (Node (m(c \<mapsto> child')) w v)))"

definition updateTopKForWord :: "string \<Rightarrow> int \<Rightarrow> engine \<Rightarrow> engine option" where
  "updateTopKForWord word idx e =
     (case updateTopKWalk (higher (freqs e) (dict e)) (perNodeK e) idx word (root e) of
        None \<Rightarrow> None
      | Some r \<Rightarrow> Some (e\<lparr>root := r\<rparr>))"

subsection \<open>Mutating entry points\<close>

text \<open>
  \<open>insert\<close> (named \<open>insert_word\<close> here): the engine state it leaves. The line it may
  append to the autosave file is written outside the engine and reads nothing but
  \<open>keyword\<close> and the new \<open>freqs[idx]\<close>.
\<close>

definition insert_word :: "string \<Rightarrow> freq \<Rightarrow> engine \<Rightarrow> engine option" where
  "insert_word keyword f e =
     (if keyword = [] then Some e
      else case ensureWordIndex keyword e of
        (idx, e1) \<Rightarrow>
          updateTopKForWord keyword idx
            (e1\<lparr>freqs := (freqs e1)[nat idx := freqs e1 ! nat idx + f],
                wordSeen := (wordSeen e1)[nat idx := True]\<rparr>))"

definition updateFrequency :: "string \<Rightarrow> freq \<Rightarrow> engine \<Rightarrow> engine option" where
  "updateFrequency keyword newFreq e =
     (if keyword = [] then Some e
      else case ensureWordIndex keyword e of
        (idx, e1) \<Rightarrow>
          updateTopKForWord keyword idx
            (e1\<lparr>freqs := (freqs e1)[nat idx := newFreq],
                wordSeen := (wordSeen e1)[nat idx := True]\<rparr>))"

text \<open>
  \<open>remove\<close>: the first loop finds the node of the word and returns from \<open>remove\<close> when
  a child is missing (\<open>clearWordIndex\<close> is \<open>None\<close> then); the node found gets
  \<open>wordIndex = -1\<close>. \<open>removeIndexFromPath\<close> erases the first occurrence of the index
  from the list of every node below the root on the path, and stops where a child is
  missing.
\<close>

fun clearWordIndex :: "string \<Rightarrow> trie \<Rightarrow> trie option" where
  "clearWordIndex [] (Node m w v) = Some (Node m (- 1) v)"
| "clearWordIndex (c # cs) (Node m w v) =
     (case m c of
        None \<Rightarrow> None
      | Some child \<Rightarrow>
          (case clearWordIndex cs child of
             None \<Rightarrow> None
           | Some child' \<Rightarrow> Some (Node (m(c \<mapsto> child')) w v)))"

fun removeIndexFromPath :: "string \<Rightarrow> int \<Rightarrow> trie \<Rightarrow> trie" where
  "removeIndexFromPath [] idx node = node"
| "removeIndexFromPath (c # cs) idx (Node m w v) =
     (case m c of
        None \<Rightarrow> Node m w v
      | Some child \<Rightarrow>
          Node (m(c \<mapsto> removeIndexFromPath cs idx
                    (Node (children child) (wordIndex child) (remove1 idx (topK child)))))
            w v)"

definition remove :: "string \<Rightarrow> engine \<Rightarrow> engine" where
  "remove keyword e =
     (if keyword = [] then e
      else case wordToIndex e keyword of
        None \<Rightarrow> e
      | Some idx \<Rightarrow>
          (let e1 = e\<lparr>freqs := (freqs e)[nat idx := 0],
                      wordSeen := (wordSeen e)[nat idx := False]\<rparr>
           in case clearWordIndex keyword (root e1) of
                None \<Rightarrow> e1
              | Some r \<Rightarrow> e1\<lparr>root := removeIndexFromPath keyword idx r\<rparr>))"

definition setPerNodeK :: "int \<Rightarrow> engine \<Rightarrow> engine" where
  "setPerNodeK k e = e\<lparr>perNodeK := max 1 k\<rparr>"

subsection \<open>Query: \<open>getTopK\<close>\<close>

text \<open>
  \<open>getTopK\<close> is not a \<open>const\<close> member and reads the children through the non-const
  \<open>children[c]\<close>, so it is modelled like the mutating calls: the walk hands back the
  node it went through, and \<open>getTopK\<close> returns the engine next to its output.
  \<open>dict[idx]\<close> and \<open>freqs[idx]\<close> are unchecked reads: an index out of range is \<open>None\<close>.
\<close>

fun walk :: "string \<Rightarrow> trie \<Rightarrow> trie option \<times> trie" where
  "walk [] node = (Some node, node)"
| "walk (c # cs) (Node m w v) =
     (case m c of
        None \<Rightarrow> (None, Node m w v)
      | Some child \<Rightarrow>
          (case walk cs child of (r, child') \<Rightarrow> (r, Node (m(c \<mapsto> child')) w v)))"

definition resolve :: "engine \<Rightarrow> int \<Rightarrow> (string \<times> freq) option" where
  "resolve e idx =
     (if 0 \<le> idx \<and> nat idx < length (dict e) \<and> nat idx < length (freqs e)
      then Some (dict e ! nat idx, freqs e ! nat idx) else None)"

definition getTopK :: "string \<Rightarrow> int \<Rightarrow> engine \<Rightarrow> ((string \<times> freq) list \<times> engine) option" where
  "getTopK pre K e =
     (if K \<le> 0 then Some ([], e)
      else case walk pre (root e) of
        (None, r) \<Rightarrow> Some ([], e\<lparr>root := r\<rparr>)
      | (Some node, r) \<Rightarrow>
          (let upto = min K (int (length (topK node)))
           in case those (map (resolve e) (take (nat upto) (topK node))) of
                None \<Rightarrow> None
              | Some out \<Rightarrow> Some (out, e\<lparr>root := r\<rparr>)))"

text \<open>The node at the end of a path, for statements about every node of the trie.\<close>

definition nodeAt :: "trie \<Rightarrow> string \<Rightarrow> trie option" where
  "nodeAt t p = fst (walk p t)"

subsection \<open>Loading and saving\<close>

text \<open>
  The file is its content, a string; \<open>None\<close> is a file that cannot be opened.
  \<open>fin >> word\<close> skips white space (\<open>isspace\<close> of the C locale) and takes the
  characters up to the next white space; it fails when none is left.
  \<open>fin >> freq\<close> skips white space, takes an optional sign and the decimal digits that
  follow, and fails when there is no digit or the number does not fit \<open>long long\<close>.
\<close>

definition isspace :: "char \<Rightarrow> bool" where
  "isspace c = (c = CHR '' '' \<or> c = CHR 0x09 \<or> c = CHR 0x0A \<or> c = CHR 0x0B
                \<or> c = CHR 0x0C \<or> c = CHR 0x0D)"

definition isdigit :: "char \<Rightarrow> bool" where
  "isdigit c = (CHR ''0'' \<le> c \<and> c \<le> CHR ''9'')"

definition read_word :: "string \<Rightarrow> (string \<times> string) option" where
  "read_word s =
     (let s1 = dropWhile isspace s
      in if s1 = [] then None
         else Some (takeWhile (\<lambda>c. \<not> isspace c) s1, dropWhile (\<lambda>c. \<not> isspace c) s1))"

definition digit_val :: "char \<Rightarrow> int" where
  "digit_val c = of_char c - 48"

definition parse_digits :: "string \<Rightarrow> int" where
  "parse_digits ds = foldl (\<lambda>a c. 10 * a + digit_val c) 0 ds"

definition read_sign :: "string \<Rightarrow> bool \<times> string" where
  "read_sign s =
     (case s of
        [] \<Rightarrow> (False, [])
      | c # r \<Rightarrow> if c = CHR ''-'' then (True, r) else if c = CHR ''+'' then (False, r)
                 else (False, c # r))"

definition read_ll :: "string \<Rightarrow> (freq \<times> string) option" where
  "read_ll s =
     (case read_sign (dropWhile isspace s) of
        (neg, s2) \<Rightarrow>
          (let ds = takeWhile isdigit s2;
               v = (if neg then - parse_digits ds else parse_digits ds)
           in if ds = [] then None
              else if v < - (2 ^ 63) \<or> 2 ^ 63 \<le> v then None
              else Some (word_of_int v, dropWhile isdigit s2)))"

text \<open>\<open>insertIntoTrie\<close>: the path is made, the last node gets the index, then the lists.\<close>

fun createPath :: "string \<Rightarrow> int \<Rightarrow> trie \<Rightarrow> trie" where
  "createPath [] idx (Node m w v) = Node m idx v"
| "createPath (c # cs) idx (Node m w v) =
     (let child = (case m c of None \<Rightarrow> newTrieNode | Some t \<Rightarrow> t)
      in Node (m(c \<mapsto> createPath cs idx child)) w v)"

definition insertIntoTrie :: "string \<Rightarrow> int \<Rightarrow> engine \<Rightarrow> engine option" where
  "insertIntoTrie word idx e =
     (case updateTopKForWord word idx (e\<lparr>root := createPath word idx (root e)\<rparr>) of
        None \<Rightarrow> None
      | Some e1 \<Rightarrow> Some (e1\<lparr>wordSeen := (wordSeen e1)[nat idx := True]\<rparr>))"

text \<open>The body of the loop of \<open>loadFromFile\<close>.\<close>

definition loadEntry :: "string \<Rightarrow> freq \<Rightarrow> engine \<Rightarrow> engine option" where
  "loadEntry word f e =
     (case ensureWordIndex word e of
        (idx, e1) \<Rightarrow> insertIntoTrie word idx (e1\<lparr>freqs := (freqs e1)[nat idx := f]\<rparr>))"

function loadLoop :: "string \<Rightarrow> engine \<Rightarrow> engine option" where
  "loadLoop s e =
     (case read_word s of
        None \<Rightarrow> Some e
      | Some (word, s1) \<Rightarrow>
          (case read_ll s1 of
             None \<Rightarrow> Some e
           | Some (f, s2) \<Rightarrow>
               (case loadEntry word f e of
                  None \<Rightarrow> None
                | Some e1 \<Rightarrow> loadLoop s2 e1)))"
  by pat_completeness auto

lemma read_word_shorter: "read_word s = Some (w, s1) \<Longrightarrow> length s1 < length s"
proof -
  assume h: "read_word s = Some (w, s1)"
  let ?t = "dropWhile isspace s"
  from h have ne: "?t \<noteq> []" and s1: "s1 = dropWhile (\<lambda>c. \<not> isspace c) ?t"
    by (auto simp: read_word_def Let_def split: if_splits)
  from ne have "\<not> isspace (hd ?t)"
    by (metis hd_dropWhile)
  with ne have "length (dropWhile (\<lambda>c. \<not> isspace c) ?t) < length ?t"
    by (cases ?t) (auto intro: le_imp_less_Suc length_dropWhile_le)
  also have "length ?t \<le> length s"
    by (rule length_dropWhile_le)
  finally show ?thesis using s1 by simp
qed

lemma read_sign_length: "length (snd (read_sign s)) \<le> length s"
  by (cases s) (auto simp: read_sign_def)

lemma read_ll_shorter: "read_ll s = Some (f, s2) \<Longrightarrow> length s2 \<le> length s"
proof -
  assume h: "read_ll s = Some (f, s2)"
  obtain neg r where r: "read_sign (dropWhile isspace s) = (neg, r)"
    by (cases "read_sign (dropWhile isspace s)")
  with h have "s2 = dropWhile isdigit r"
    by (auto simp: read_ll_def Let_def split: if_splits)
  then have "length s2 \<le> length r"
    by (simp add: length_dropWhile_le)
  also have "length r \<le> length (dropWhile isspace s)"
    using read_sign_length [of "dropWhile isspace s"] r by simp
  also have "\<dots> \<le> length s"
    by (rule length_dropWhile_le)
  finally show ?thesis .
qed

termination loadLoop
proof (relation "measure (\<lambda>(s, e). length s)")
  show "wf (measure (\<lambda>(s, e). length s))" by simp
next
  fix s :: string and e :: engine and x2 x y s1 xa ya s2 e1
  assume "read_word s = Some x2" "(x, y) = x2" "read_ll y = Some xa" "(ya, s2) = xa"
  then have "length y < length s" "length s2 \<le> length y"
    using read_word_shorter [of s x y] read_ll_shorter [of y ya s2] by auto
  then show "((s2, e1), (s, e)) \<in> measure (\<lambda>(s, e). length s)" by simp
qed

declare loadLoop.simps [simp del]

definition loadFromFile :: "string option \<Rightarrow> engine \<Rightarrow> (bool \<times> engine) option" where
  "loadFromFile file e =
     (case file of
        None \<Rightarrow> Some (False, e)
      | Some content \<Rightarrow>
          (case loadLoop content e of None \<Rightarrow> None | Some e1 \<Rightarrow> Some (True, e1)))"

text \<open>
  \<open>saveToFile\<close>: what is written. \<open>fout << freqs[id]\<close> prints the signed decimal
  number, with \<open>-\<close> for a negative one.
\<close>

fun show_nat :: "nat \<Rightarrow> string" where
  "show_nat n =
     (if n < 10 then [char_of (48 + n)] else show_nat (n div 10) @ [char_of (48 + n mod 10)])"

declare show_nat.simps [simp del]

definition show_ll :: "freq \<Rightarrow> string" where
  "show_ll f = (if sint f < 0 then CHR ''-'' # show_nat (nat (- sint f)) else show_nat (nat (sint f)))"

definition saveLine :: "engine \<Rightarrow> nat \<Rightarrow> string" where
  "saveLine e i = dict e ! i @ '' '' @ show_ll (freqs e ! i) @ [CHR 0x0A]"

definition savedIndices :: "engine \<Rightarrow> nat list" where
  "savedIndices e =
     sort_by (\<lambda>a b. dict e ! a < dict e ! b) (filter (\<lambda>i. wordSeen e ! i) [0..<length (dict e)])"

definition saveToFile :: "bool \<Rightarrow> engine \<Rightarrow> bool \<times> string option" where
  "saveToFile writable e =
     (if \<not> writable then (False, None)
      else (True, Some (concat (map (saveLine e) (savedIndices e)))))"

subsection \<open>Calls and reachable states\<close>

datatype call =
    Insert string freq
  | UpdateFrequency string freq
  | Remove string
  | SetPerNodeK int
  | LoadFromFile "string option"

fun exec :: "call \<Rightarrow> engine \<Rightarrow> engine option" where
  "exec (Insert w f) e = insert_word w f e"
| "exec (UpdateFrequency w f) e = updateFrequency w f e"
| "exec (Remove w) e = Some (remove w e)"
| "exec (SetPerNodeK k) e = Some (setPerNodeK k e)"
| "exec (LoadFromFile file) e = map_option snd (loadFromFile file e)"

fun run :: "call list \<Rightarrow> engine \<Rightarrow> engine option" where
  "run [] e = Some e"
| "run (c # cs) e = (case exec c e of None \<Rightarrow> None | Some e1 \<Rightarrow> run cs e1)"

text \<open>
  A reachable state is what a constructor call followed by calls that return leaves.
\<close>

definition reachable :: "engine \<Rightarrow> bool" where
  "reachable e = (\<exists>k cs. run cs (AutocompleteEngine k) = Some e)"

section \<open>Invariants and auxiliary notions\<close>

subsection \<open>The invariant of the reachable states\<close>

text \<open>
  A comparator is a strict total order on a set of elements: what \<open>std::sort\<close> asks of
  it, and what makes the sorted permutation unique.
\<close>

definition strict_total_on :: "'a set \<Rightarrow> ('a \<Rightarrow> 'a \<Rightarrow> bool) \<Rightarrow> bool" where
  "strict_total_on S lt =
     ((\<forall>x\<in>S. \<not> lt x x) \<and> (\<forall>x\<in>S. \<forall>y\<in>S. \<forall>z\<in>S. lt x y \<longrightarrow> lt y z \<longrightarrow> lt x z)
      \<and> (\<forall>x\<in>S. \<forall>y\<in>S. x \<noteq> y \<longrightarrow> lt x y \<or> lt y x))"

text \<open>
  The list of the node at path \<open>p\<close> is in order when it is sorted by \<open>higher\<close>, holds
  indices of the registry only, each of a word that \<open>p\<close> is a prefix of, and is empty at
  the root. \<open>trie_ok\<close> says so for every node below (and including) the one at \<open>p\<close>.
\<close>

definition cache_ok :: "freq list \<Rightarrow> string list \<Rightarrow> string \<Rightarrow> int list \<Rightarrow> bool" where
  "cache_ok fs d p v =
     (sorted_wrt (higher fs d) v
      \<and> (\<forall>i\<in>set v. 0 \<le> i \<and> i < int (length d) \<and> prefix p (d ! nat i))
      \<and> (p = [] \<longrightarrow> v = []))"

definition trie_ok :: "freq list \<Rightarrow> string list \<Rightarrow> string \<Rightarrow> trie \<Rightarrow> bool" where
  "trie_ok fs d p t = (\<forall>q n. nodeAt t q = Some n \<longrightarrow> cache_ok fs d (p @ q) (topK n))"

text \<open>
  Two registries agree except on the word \<open>wd\<close>: the second extends the first and gives
  every other word the frequency it had.
\<close>

definition agree_except ::
  "string \<Rightarrow> freq list \<Rightarrow> string list \<Rightarrow> freq list \<Rightarrow> string list \<Rightarrow> bool" where
  "agree_except wd fs d fs' d' =
     (length fs = length d \<and> length fs' = length d' \<and> length d \<le> length d'
      \<and> (\<forall>i<length d. d' ! i = d ! i \<and> (d ! i \<noteq> wd \<longrightarrow> fs' ! i = fs ! i)))"

text \<open>
  The registry is in order when its three arrays have one length, the texts are distinct
  and not empty, and \<open>wordToIndex\<close> is the inverse of \<open>dict\<close>. The engine is in order when
  the registry and the trie are, and every registered word has its path in the trie.
\<close>

definition registry_ok :: "engine \<Rightarrow> bool" where
  "registry_ok e =
     (length (freqs e) = length (dict e) \<and> length (wordSeen e) = length (dict e)
      \<and> distinct (dict e) \<and> [] \<notin> set (dict e)
      \<and> (\<forall>w i. wordToIndex e w = Some i \<longleftrightarrow>
            0 \<le> i \<and> i < int (length (dict e)) \<and> dict e ! nat i = w))"

fun hasPath :: "trie \<Rightarrow> string \<Rightarrow> bool" where
  "hasPath t [] = True"
| "hasPath (Node m w v) (c # cs) = (case m c of None \<Rightarrow> False | Some child \<Rightarrow> hasPath child cs)"

definition engine_ok :: "engine \<Rightarrow> bool" where
  "engine_ok e =
     (registry_ok e \<and> trie_ok (freqs e) (dict e) [] (root e)
      \<and> (\<forall>w\<in>set (dict e). hasPath (root e) w))"

subsection \<open>The empty prefix, as the specification describes it\<close>

text \<open>
  The global view the specification describes for the empty prefix, in its words: the
  \<open>K\<close> highest-ranked terms across the whole vocabulary (the known terms, ranked by
  \<open>higher\<close>). It is compared with what \<open>getTopK\<close> returns.
\<close>
definition spec_globalTopK :: "int \<Rightarrow> engine \<Rightarrow> (string \<times> freq) list" where
  "spec_globalTopK K e =
     map (\<lambda>i. (dict e ! nat i, freqs e ! nat i))
       (take (nat K)
          (sort_by (higher (freqs e) (dict e))
             (filter (\<lambda>i. wordSeen e ! nat i) (map int [0..<length (dict e)]))))"

subsection \<open>What a load reads, and texts that no list holds\<close>

text \<open>
  The entries the loop of \<open>loadFromFile\<close> reads from a content, in order: the reading
  does not depend on the engine.
\<close>
function readEntries :: "string \<Rightarrow> (string \<times> freq) list" where
  "readEntries s =
     (case read_word s of
        None \<Rightarrow> []
      | Some (word, s1) \<Rightarrow>
          (case read_ll s1 of
             None \<Rightarrow> []
           | Some (f, s2) \<Rightarrow> (word, f) # readEntries s2))"
  by pat_completeness auto
termination readEntries
proof (relation "measure length")
  show "wf (measure length)" by simp
next
  fix s :: string and x2 x y xa ya s2
  assume "read_word s = Some x2" "(x, y) = x2" "read_ll y = Some xa" "(ya, s2) = xa"
  then have "length y < length s" "length s2 \<le> length y"
    using read_word_shorter [of s x y] read_ll_shorter [of y ya s2] by auto
  then show "(s2, s) \<in> measure length" by simp
qed

declare readEntries.simps [simp del]

fun loadEntries :: "(string \<times> freq) list \<Rightarrow> engine \<Rightarrow> engine option" where
  "loadEntries [] e = Some e"
| "loadEntries ((w, f) # es) e =
     (case loadEntry w f e of None \<Rightarrow> None | Some e1 \<Rightarrow> loadEntries es e1)"

text \<open>A call touches a text when it inserts, updates or loads it.\<close>
fun touches :: "string \<Rightarrow> call \<Rightarrow> bool" where
  "touches text (Insert w f) = (w = text)"
| "touches text (UpdateFrequency w f) = (w = text)"
| "touches text (Remove w) = False"
| "touches text (SetPerNodeK k) = False"
| "touches text (LoadFromFile None) = False"
| "touches text (LoadFromFile (Some content)) = (text \<in> fst ` set (readEntries content))"

text \<open>
  An index is cached nowhere when no node of the trie has it in its list; a text is
  uncached when its index, if it has one, is cached nowhere.
\<close>

definition cached_nowhere :: "int \<Rightarrow> trie \<Rightarrow> bool" where
  "cached_nowhere i t = (\<forall>q n. nodeAt t q = Some n \<longrightarrow> i \<notin> set (topK n))"

definition uncached :: "string \<Rightarrow> engine \<Rightarrow> bool" where
  "uncached text e = (\<forall>i. wordToIndex e text = Some i \<longrightarrow> cached_nowhere i (root e))"

subsection \<open>Lines of the vocabulary file\<close>

text \<open>
  A well-formed line of the vocabulary file: a text, white space, a number that
  \<open>long long\<close> holds, and nothing but white space after it.
\<close>
definition parseLine :: "string \<Rightarrow> (string \<times> freq) option" where
  "parseLine l =
     (case read_word l of
        None \<Rightarrow> None
      | Some (w, s1) \<Rightarrow>
          (case read_ll s1 of
             None \<Rightarrow> None
           | Some (f, s2) \<Rightarrow> if dropWhile isspace s2 = [] then Some (w, f) else None))"

text \<open>
  The line \<open>saveToFile\<close> writes for an entry, without its line break, and the known
  entries of an engine: the pairs of text and frequency of the words with \<open>wordSeen\<close>.
\<close>

definition entryLine :: "string \<times> freq \<Rightarrow> string" where
  "entryLine en = fst en @ '' '' @ show_ll (snd en)"

definition knownEntries :: "engine \<Rightarrow> (string \<times> freq) list" where
  "knownEntries e =
     map (\<lambda>i. (dict e ! i, freqs e ! i)) (filter (\<lambda>i. wordSeen e ! i) [0..<length (dict e)])"

text \<open>
  The loader the specification describes, in its words: the file is taken line by line,
  every well-formed line is loaded, and the first malformed line stops the load. Blank
  lines are passed over. It is compared with \<open>loadLoop\<close>.
\<close>
fun splitLines :: "string \<Rightarrow> string list" where
  "splitLines [] = [[]]"
| "splitLines (c # cs) =
     (if c = CHR 0x0A then [] # splitLines cs
      else (case splitLines cs of [] \<Rightarrow> [[c]] | l # ls \<Rightarrow> (c # l) # ls))"

fun spec_loadLines :: "string list \<Rightarrow> engine \<Rightarrow> engine option" where
  "spec_loadLines [] e = Some e"
| "spec_loadLines (l # ls) e =
     (if dropWhile isspace l = [] then spec_loadLines ls e
      else case parseLine l of
             None \<Rightarrow> Some e
           | Some (w, f) \<Rightarrow>
               (case loadEntry w f e of None \<Rightarrow> None | Some e1 \<Rightarrow> spec_loadLines ls e1))"

definition spec_load :: "string \<Rightarrow> engine \<Rightarrow> engine option" where
  "spec_load content e = spec_loadLines (splitLines content) e"

subsection \<open>Inserting an unknown text\<close>


subsection \<open>The capacity\<close>

text \<open>
  Every list of the trie is within the capacity \<open>k\<close>; a list of calls never lowers the
  capacity \<open>k\<close> it starts from.
\<close>
definition lists_within :: "int \<Rightarrow> trie \<Rightarrow> bool" where
  "lists_within k t = (\<forall>q n. nodeAt t q = Some n \<longrightarrow> int (length (topK n)) \<le> k)"

fun never_lowered :: "int \<Rightarrow> call list \<Rightarrow> bool" where
  "never_lowered k [] = True"
| "never_lowered k (SetPerNodeK k' # cs) = (k \<le> max 1 k' \<and> never_lowered (max 1 k') cs)"
| "never_lowered k (c # cs) = never_lowered k cs"

section \<open>Sorting and ranking\<close>

lemma strict_total_on_subset: "strict_total_on S lt \<Longrightarrow> T \<subseteq> S \<Longrightarrow> strict_total_on T lt"
  unfolding strict_total_on_def by (meson subsetD)

lemma set_insort_by [simp]: "set (insort_by lt x xs) = insert x (set xs)"
  by (induction xs) auto

lemma length_insort_by [simp]: "length (insort_by lt x xs) = Suc (length xs)"
  by (induction xs) auto

lemma set_sort_by [simp]: "set (sort_by lt xs) = set xs"
  by (induction xs) (auto simp: sort_by_def)

lemma length_sort_by [simp]: "length (sort_by lt xs) = length xs"
  by (induction xs) (auto simp: sort_by_def)

lemma sort_by_Cons: "sort_by lt (x # xs) = insort_by lt x (sort_by lt xs)"
  by (simp add: sort_by_def)

lemma sort_by_Nil [simp]: "sort_by lt [] = []"
  by (simp add: sort_by_def)

lemma sorted_insort_by:
  assumes st: "strict_total_on S lt" and xS: "x \<in> S"
  shows "set xs \<subseteq> S \<Longrightarrow> x \<notin> set xs \<Longrightarrow> sorted_wrt lt xs \<Longrightarrow> sorted_wrt lt (insort_by lt x xs)"
proof (induction xs)
  case Nil
  then show ?case by simp
next
  case (Cons y ys)
  have yS: "y \<in> S" and ysS: "set ys \<subseteq> S" and ne: "x \<noteq> y"
    using Cons.prems by auto
  show ?case
  proof (cases "lt x y")
    case True
    have "lt x z" if "z \<in> set ys" for z
    proof -
      have "lt y z" using Cons.prems(3) that by simp
      moreover have "z \<in> S" using ysS that by blast
      ultimately show ?thesis
        using st True xS yS unfolding strict_total_on_def by blast
    qed
    with True Cons.prems(3) show ?thesis by simp
  next
    case False
    then have "lt y x"
      using st xS yS ne unfolding strict_total_on_def by blast
    moreover have "sorted_wrt lt (insort_by lt x ys)"
      using Cons.IH ysS Cons.prems by simp
    ultimately show ?thesis
      using False Cons.prems(3) by auto
  qed
qed

lemma distinct_insort_by: "x \<notin> set xs \<Longrightarrow> distinct xs \<Longrightarrow> distinct (insort_by lt x xs)"
  by (induction xs) auto

lemma distinct_sort_by: "distinct xs \<Longrightarrow> distinct (sort_by lt xs)"
  by (induction xs) (auto simp: sort_by_Cons distinct_insort_by)

lemma sorted_sort_by:
  assumes st: "strict_total_on S lt"
  shows "set xs \<subseteq> S \<Longrightarrow> distinct xs \<Longrightarrow> sorted_wrt lt (sort_by lt xs)"
proof (induction xs)
  case Nil
  then show ?case by simp
next
  case (Cons x xs)
  then show ?case
    using sorted_insort_by [OF st, of x "sort_by lt xs"] by (simp add: sort_by_Cons)
qed

lemma sorted_wrt_distinct:
  assumes st: "strict_total_on S lt"
  shows "set xs \<subseteq> S \<Longrightarrow> sorted_wrt lt xs \<Longrightarrow> distinct xs"
proof (induction xs)
  case Nil
  then show ?case by simp
next
  case (Cons x xs)
  have "\<not> lt x x"
    using st Cons.prems(1) by (simp add: strict_total_on_def)
  then have "x \<notin> set xs"
    using Cons.prems(2) by auto
  then show ?case
    using Cons by simp
qed

lemma sorted_wrt_unique:
  assumes st: "strict_total_on S lt"
  shows "set xs \<subseteq> S \<Longrightarrow> sorted_wrt lt xs \<Longrightarrow> sorted_wrt lt ys \<Longrightarrow> set xs = set ys \<Longrightarrow> xs = ys"
proof (induction xs arbitrary: ys)
  case Nil
  then show ?case by simp
next
  case (Cons x xs)
  then obtain y ys' where ys: "ys = y # ys'"
    by (cases ys) auto
  have sub: "set ys \<subseteq> S"
    using Cons.prems(1) unfolding Cons.prems(4) .
  have dx: "distinct (x # xs)"
    using sorted_wrt_distinct [OF st Cons.prems(1) Cons.prems(2)] .
  have dy: "distinct (y # ys')"
    using sorted_wrt_distinct [OF st sub Cons.prems(3)] ys by simp
  have xy: "x = y"
  proof (rule ccontr)
    assume ne: "x \<noteq> y"
    then have "y \<in> set xs" "x \<in> set ys'"
      using Cons.prems(4) ys by auto
    then have "lt x y" "lt y x"
      using Cons.prems(2,3) ys by auto
    moreover have "x \<in> S" "y \<in> S"
      using Cons.prems(1,4) ys by auto
    ultimately show False
      using st unfolding strict_total_on_def by blast
  qed
  have "set xs = set ys'"
    using dx dy Cons.prems(4) ys xy by auto
  then have "xs = ys'"
    using Cons.IH [of ys'] Cons.prems ys by simp
  with xy ys show ?case by simp
qed

lemma sort_by_unique:
  assumes "strict_total_on S lt" "set xs \<subseteq> S" "distinct xs" "sorted_wrt lt ys" "set ys = set xs"
  shows "sort_by lt xs = ys"
  using sorted_wrt_unique [OF assms(1), of "sort_by lt xs" ys] sorted_sort_by [OF assms(1)] assms
  by simp

lemma higher_iff:
  assumes "length fs = length d" "0 \<le> a" "a < int (length d)" "0 \<le> b" "b < int (length d)"
  shows "higher fs d a b \<longleftrightarrow>
           sint (fs ! nat b) < sint (fs ! nat a)
           \<or> (sint (fs ! nat a) = sint (fs ! nat b) \<and> d ! nat a < d ! nat b)"
  using assms by (simp add: higher_def Let_def word_eq_iff_signed [where ?'a = int])

lemma higher_irrefl [simp]: "\<not> higher fs d a a"
  by (simp add: higher_def)

lemma higher_strict_total:
  assumes len: "length fs = length d" and dist: "distinct d"
  shows "strict_total_on {a. 0 \<le> a \<and> a < int (length d)} (higher fs d)"
proof -
  have tot: "higher fs d a b \<or> higher fs d b a"
    if "0 \<le> a" "a < int (length d)" "0 \<le> b" "b < int (length d)" "a \<noteq> b" for a b
  proof -
    have "nat a \<noteq> nat b" "nat a < length d" "nat b < length d"
      using that by auto
    then have "d ! nat a \<noteq> d ! nat b"
      using dist by (simp add: nth_eq_iff_index_eq)
    then have "d ! nat a < d ! nat b \<or> d ! nat b < d ! nat a"
      by auto
    then show ?thesis
      unfolding higher_iff [OF len that(1,2,3,4)] higher_iff [OF len that(3,4,1,2)]
      by linarith
  qed
  have tr: "higher fs d a c"
    if "0 \<le> a" "a < int (length d)" "0 \<le> b" "b < int (length d)" "0 \<le> c" "c < int (length d)"
       "higher fs d a b" "higher fs d b c" for a b c
  proof -
    have ab: "sint (fs ! nat b) < sint (fs ! nat a)
           \<or> (sint (fs ! nat a) = sint (fs ! nat b) \<and> d ! nat a < d ! nat b)"
      using that(7) higher_iff [OF len that(1,2,3,4)] by simp
    have bc: "sint (fs ! nat c) < sint (fs ! nat b)
           \<or> (sint (fs ! nat b) = sint (fs ! nat c) \<and> d ! nat b < d ! nat c)"
      using that(8) higher_iff [OF len that(3,4,5,6)] by simp
    have "sint (fs ! nat c) < sint (fs ! nat a)
           \<or> (sint (fs ! nat a) = sint (fs ! nat c) \<and> d ! nat a < d ! nat c)"
    proof (cases "sint (fs ! nat a) = sint (fs ! nat b) \<and> sint (fs ! nat b) = sint (fs ! nat c)")
      case True
      with ab bc have "d ! nat a < d ! nat b" "d ! nat b < d ! nat c"
        by simp_all
      then have "d ! nat a < d ! nat c"
        by (rule less_trans)
      with True show ?thesis by simp
    next
      case False
      with ab bc show ?thesis by linarith
    qed
    then show ?thesis
      using higher_iff [OF len that(1,2,5,6)] by simp
  qed
  show ?thesis
    unfolding strict_total_on_def
  proof (intro conjI ballI impI)
    fix x y z
    assume "x \<in> {a. 0 \<le> a \<and> a < int (length d)}" "y \<in> {a. 0 \<le> a \<and> a < int (length d)}"
      "z \<in> {a. 0 \<le> a \<and> a < int (length d)}" "higher fs d x y" "higher fs d y z"
    then show "higher fs d x z"
      using tr [of x y z] by simp
  next
    fix x y
    assume "x \<in> {a. 0 \<le> a \<and> a < int (length d)}" "y \<in> {a. 0 \<le> a \<and> a < int (length d)}"
      "x \<noteq> y"
    then show "higher fs d x y \<or> higher fs d y x"
      using tot [of x y] by simp
  qed simp
qed

section \<open>The invariant is preserved\<close>

subsection \<open>Nodes and their lists\<close>

lemma nodeAt_Nil [simp]: "nodeAt t [] = Some t"
  by (simp add: nodeAt_def)

lemma nodeAt_Cons [simp]:
  "nodeAt (Node m w v) (c # cs) = (case m c of None \<Rightarrow> None | Some child \<Rightarrow> nodeAt child cs)"
  by (simp add: nodeAt_def split: option.splits prod.splits)

lemma walk_snd: "snd (walk p t) = t"
proof (induction p arbitrary: t)
  case Nil
  then show ?case by simp
next
  case (Cons c cs)
  obtain m w v where t: "t = Node m w v" by (cases t)
  show ?case
  proof (cases "m c")
    case None
    with t show ?thesis by simp
  next
    case (Some child)
    have "snd (walk cs child) = child" by (rule Cons.IH)
    then have "m(c \<mapsto> snd (walk cs child)) = m"
      using Some by (simp add: fun_upd_idem)
    with t Some show ?thesis
      by (cases "walk cs child") simp
  qed
qed

lemma trie_ok_Node:
  "trie_ok fs d p (Node m w v) \<longleftrightarrow>
     cache_ok fs d p v \<and> (\<forall>c t. m c = Some t \<longrightarrow> trie_ok fs d (p @ [c]) t)"
proof
  assume ok: "trie_ok fs d p (Node m w v)"
  have "cache_ok fs d p v"
    using ok [unfolded trie_ok_def, rule_format, of "[]" "Node m w v"] by simp
  moreover have "trie_ok fs d (p @ [c]) t" if "m c = Some t" for c t
    unfolding trie_ok_def
  proof (intro allI impI)
    fix q n
    assume "nodeAt t q = Some n"
    then have "nodeAt (Node m w v) (c # q) = Some n"
      using that by simp
    then show "cache_ok fs d ((p @ [c]) @ q) (topK n)"
      using ok [unfolded trie_ok_def, rule_format, of "c # q" n] by simp
  qed
  ultimately show "cache_ok fs d p v \<and> (\<forall>c t. m c = Some t \<longrightarrow> trie_ok fs d (p @ [c]) t)"
    by blast
next
  assume h: "cache_ok fs d p v \<and> (\<forall>c t. m c = Some t \<longrightarrow> trie_ok fs d (p @ [c]) t)"
  show "trie_ok fs d p (Node m w v)"
    unfolding trie_ok_def
  proof (intro allI impI)
    fix q n
    assume n: "nodeAt (Node m w v) q = Some n"
    show "cache_ok fs d (p @ q) (topK n)"
    proof (cases q)
      case Nil
      with n h show ?thesis by auto
    next
      case (Cons c q')
      with n obtain t where t: "m c = Some t" "nodeAt t q' = Some n"
        by (auto split: option.splits)
      then have "cache_ok fs d ((p @ [c]) @ q') (topK n)"
        using h unfolding trie_ok_def by blast
      with Cons show ?thesis by simp
    qed
  qed
qed

lemma trie_ok_newTrieNode: "p \<noteq> [] \<Longrightarrow> trie_ok fs d p newTrieNode"
  by (simp add: newTrieNode_def trie_ok_Node cache_ok_def)

lemma higher_agree:
  assumes ag: "agree_except wd fs d fs' d'"
    and a: "0 \<le> a" "a < int (length d)" "d ! nat a \<noteq> wd"
    and b: "0 \<le> b" "b < int (length d)" "d ! nat b \<noteq> wd"
  shows "higher fs' d' a b = higher fs d a b"
proof -
  have "nat a < length d" "nat b < length d"
    using a b by auto
  then have "fs' ! nat a = fs ! nat a" "fs' ! nat b = fs ! nat b"
      "d' ! nat a = d ! nat a" "d' ! nat b = d ! nat b"
    using ag a(3) b(3) unfolding agree_except_def by blast+
  moreover have "a < int (length fs)" "b < int (length fs)"
      "a < int (length fs')" "b < int (length fs')"
    using ag a b unfolding agree_except_def by auto
  ultimately show ?thesis
    using a(1) b(1) by (simp add: higher_def)
qed

lemma sorted_wrt_cong_set:
  "(\<And>x y. x \<in> set xs \<Longrightarrow> y \<in> set xs \<Longrightarrow> P x y = Q x y) \<Longrightarrow> sorted_wrt P xs = sorted_wrt Q xs"
  by (induction xs) auto

lemma cache_ok_agree:
  assumes ok: "cache_ok fs d p v" and ag: "agree_except wd fs d fs' d'"
    and nw: "\<forall>i\<in>set v. d ! nat i \<noteq> wd"
  shows "cache_ok fs' d' p v"
proof -
  have val: "0 \<le> i \<and> i < int (length d) \<and> prefix p (d ! nat i)" if "i \<in> set v" for i
    using ok that unfolding cache_ok_def by blast
  have "sorted_wrt (higher fs' d') v = sorted_wrt (higher fs d) v"
  proof (rule sorted_wrt_cong_set)
    fix x y
    assume "x \<in> set v" "y \<in> set v"
    then show "higher fs' d' x y = higher fs d x y"
      using higher_agree [OF ag, of x y] val nw by blast
  qed
  moreover have "0 \<le> i \<and> i < int (length d') \<and> prefix p (d' ! nat i)" if "i \<in> set v" for i
  proof -
    have "nat i < length d" using val [OF that] by auto
    then have "d' ! nat i = d ! nat i" "length d \<le> length d'"
      using ag unfolding agree_except_def by auto
    then show ?thesis using val [OF that] by auto
  qed
  ultimately show ?thesis
    using ok unfolding cache_ok_def by blast
qed

lemma trie_ok_frame:
  assumes ok: "trie_ok fs d p t" and ag: "agree_except wd fs d fs' d'"
    and np: "\<not> prefix p wd"
  shows "trie_ok fs' d' p t"
  unfolding trie_ok_def
proof (intro allI impI)
  fix q n
  assume n: "nodeAt t q = Some n"
  then have c: "cache_ok fs d (p @ q) (topK n)"
    using ok unfolding trie_ok_def by blast
  have "d ! nat i \<noteq> wd" if "i \<in> set (topK n)" for i
  proof
    assume "d ! nat i = wd"
    moreover have "prefix (p @ q) (d ! nat i)"
      using c that unfolding cache_ok_def by blast
    ultimately have "prefix p wd"
      using append_prefixD by blast
    with np show False by simp
  qed
  then show "cache_ok fs' d' (p @ q) (topK n)"
    using cache_ok_agree [OF c ag] by blast
qed

lemma sorted_wrt_higher_distinct: "sorted_wrt (higher fs d) v \<Longrightarrow> distinct v"
  by (induction v) auto

lemma cache_ok_distinct: "cache_ok fs d p v \<Longrightarrow> distinct v"
  by (auto simp: cache_ok_def dest: sorted_wrt_higher_distinct)

lemma trimTopK_Some_cases:
  "trimTopK k v = Some v3 \<Longrightarrow> v3 = v \<or> v3 = take (nat k) v"
  by (auto simp: trimTopK_def split: if_splits)

lemma prefix_snoc_of_append: "prefix (p @ [c']) (p @ c # cs) \<longleftrightarrow> c' = c"
  by simp

lemma updateTopKWalk_ok:
  assumes ag: "agree_except wd fs d fs' d'"
    and st: "strict_total_on {a. 0 \<le> a \<and> a < int (length d')} (higher fs' d')"
    and idx: "0 \<le> idx" "idx < int (length d')" "d' ! nat idx = wd"
  shows "wd = p @ cs \<Longrightarrow> cache_ok fs' d' p v
     \<Longrightarrow> (\<forall>c t. m c = Some t \<longrightarrow> trie_ok fs d (p @ [c]) t)
     \<Longrightarrow> updateTopKWalk (higher fs' d') k idx cs (Node m w v) = Some t'
     \<Longrightarrow> trie_ok fs' d' p t'"
proof (induction cs arbitrary: p m w v t')
  case Nil
  have t': "t' = Node m idx v"
    using Nil.prems(4) by simp
  have "trie_ok fs' d' (p @ [c]) t" if "m c = Some t" for c t
  proof -
    have "trie_ok fs d (p @ [c]) t" using Nil.prems(3) that by blast
    moreover have "\<not> prefix (p @ [c]) wd" using Nil.prems(1) by simp
    ultimately show ?thesis by (rule trie_ok_frame [OF _ ag])
  qed
  with Nil.prems(2) t' show ?case
    by (simp add: trie_ok_Node)
next
  case (Cons c cs)
  define child where "child = (case m c of None \<Rightarrow> newTrieNode | Some t \<Rightarrow> t)"
  define v1 where "v1 = (if idx \<in> set (topK child) then topK child else topK child @ [idx])"
  define v2 where "v2 = sort_by (higher fs' d') v1"
  obtain mc wc vc where child: "child = Node mc wc vc" by (cases child)
  from Cons.prems(4) obtain v3 child' where
    v3: "trimTopK k v2 = Some v3"
    and rec: "updateTopKWalk (higher fs' d') k idx cs (Node mc wc v3) = Some child'"
    and t': "t' = Node (m(c \<mapsto> child')) w v"
    unfolding updateTopKWalk.simps child_def [symmetric] Let_def v1_def [symmetric]
      v2_def [symmetric]
    by (auto simp: child split: option.splits)
  have child_ok: "trie_ok fs d (p @ [c]) child"
  proof (cases "m c")
    case None
    then show ?thesis by (simp add: child_def trie_ok_newTrieNode)
  next
    case (Some t)
    then show ?thesis using Cons.prems(3) by (simp add: child_def)
  qed
  then have vc_ok: "cache_ok fs d (p @ [c]) vc"
    and gc_ok: "\<forall>c' t. mc c' = Some t \<longrightarrow> trie_ok fs d ((p @ [c]) @ [c']) t"
    unfolding child trie_ok_Node by blast+
  have len: "length d \<le> length d'" and same: "\<And>i. i < length d \<Longrightarrow> d' ! i = d ! i"
    using ag unfolding agree_except_def by auto
  have vc_val: "0 \<le> i \<and> i < int (length d') \<and> prefix (p @ [c]) (d' ! nat i)"
    if "i \<in> set vc" for i
  proof -
    have h: "0 \<le> i \<and> i < int (length d) \<and> prefix (p @ [c]) (d ! nat i)"
      using vc_ok that unfolding cache_ok_def by blast
    then have "nat i < length d" by auto
    then show ?thesis using h len same [of "nat i"] by auto
  qed
  have idx_val: "0 \<le> idx \<and> idx < int (length d') \<and> prefix (p @ [c]) (d' ! nat idx)"
    using idx Cons.prems(1) by simp
  have v1_set: "set v1 = insert idx (set vc)"
    by (auto simp: v1_def child)
  have v1_val: "0 \<le> i \<and> i < int (length d') \<and> prefix (p @ [c]) (d' ! nat i)"
    if "i \<in> set v1" for i
    using that vc_val idx_val unfolding v1_set by blast
  have v1_dist: "distinct v1"
    using cache_ok_distinct [OF vc_ok] by (simp add: v1_def child)
  have v2_sorted: "sorted_wrt (higher fs' d') v2"
    unfolding v2_def
    by (rule sorted_sort_by [OF st]) (use v1_val v1_dist in auto)
  have v3_sorted: "sorted_wrt (higher fs' d') v3"
    using trimTopK_Some_cases [OF v3] v2_sorted by (auto intro: sorted_wrt_take)
  have v3_sub: "set v3 \<subseteq> set v1"
    using trimTopK_Some_cases [OF v3] set_take_subset [of "nat k" v2]
    by (auto simp: v2_def)
  have v3_ok: "cache_ok fs' d' (p @ [c]) v3"
    unfolding cache_ok_def using v3_sorted v3_sub v1_val by auto
  have child'_ok: "trie_ok fs' d' (p @ [c]) child'"
    by (rule Cons.IH [OF _ v3_ok gc_ok rec]) (simp add: Cons.prems(1))
  have "trie_ok fs' d' (p @ [c']) t" if "(m(c \<mapsto> child')) c' = Some t" for c' t
  proof (cases "c' = c")
    case True
    with that child'_ok show ?thesis by simp
  next
    case False
    with that have "trie_ok fs d (p @ [c']) t"
      using Cons.prems(3) by simp
    moreover have "\<not> prefix (p @ [c']) wd"
      using False Cons.prems(1) by simp
    ultimately show ?thesis by (rule trie_ok_frame [OF _ ag])
  qed
  with Cons.prems(2) show ?case
    unfolding t' trie_ok_Node by blast
qed

lemma createPath_ok:
  "trie_ok fs d p t \<Longrightarrow> trie_ok fs d p (createPath cs idx t)"
proof (induction cs arbitrary: p t)
  case Nil
  obtain m w v where t: "t = Node m w v" by (cases t)
  with Nil show ?case by (simp add: trie_ok_Node)
next
  case (Cons c cs)
  obtain m w v where t: "t = Node m w v" by (cases t)
  define child where "child = (case m c of None \<Rightarrow> newTrieNode | Some t \<Rightarrow> t)"
  have "trie_ok fs d (p @ [c]) child"
    using Cons.prems unfolding t trie_ok_Node child_def
    by (auto simp: trie_ok_newTrieNode split: option.splits)
  then have "trie_ok fs d (p @ [c]) (createPath cs idx child)"
    using Cons.IH by blast
  moreover have "createPath (c # cs) idx t = Node (m(c \<mapsto> createPath cs idx child)) w v"
    by (simp add: t child_def)
  ultimately show ?case
    using Cons.prems unfolding t by (simp add: trie_ok_Node)
qed

lemma clearWordIndex_ok:
  "trie_ok fs d p t \<Longrightarrow> clearWordIndex cs t = Some t' \<Longrightarrow> trie_ok fs d p t'"
proof (induction cs arbitrary: p t t')
  case Nil
  obtain m w v where t: "t = Node m w v" by (cases t)
  with Nil show ?case by (auto simp: trie_ok_Node)
next
  case (Cons c cs)
  obtain m w v where t: "t = Node m w v" by (cases t)
  from Cons.prems(2) obtain child child' where
    c: "m c = Some child" "clearWordIndex cs child = Some child'" "t' = Node (m(c \<mapsto> child')) w v"
    unfolding t by (auto split: option.splits)
  have "trie_ok fs d (p @ [c]) child"
    using Cons.prems(1) c(1) unfolding t trie_ok_Node by blast
  then have "trie_ok fs d (p @ [c]) child'"
    using Cons.IH c(2) by blast
  then show ?case
    using Cons.prems(1) unfolding t c(3) trie_ok_Node by auto
qed

lemma sorted_wrt_remove1: "sorted_wrt P xs \<Longrightarrow> sorted_wrt P (remove1 x xs)"
  by (induction xs) (auto dest: notin_set_remove1)

lemma removeIndexFromPath_ok:
  assumes ag: "agree_except wd fs d fs' d'" and idx: "0 \<le> idx" "idx < int (length d)" "d ! nat idx = wd"
    and dist: "distinct d"
  shows "wd = p @ cs \<Longrightarrow> cache_ok fs' d' p v
     \<Longrightarrow> (\<forall>c t. m c = Some t \<longrightarrow> trie_ok fs d (p @ [c]) t)
     \<Longrightarrow> trie_ok fs' d' p (removeIndexFromPath cs idx (Node m w v))"
proof (induction cs arbitrary: p m w v)
  case Nil
  have "trie_ok fs' d' (p @ [c]) t" if "m c = Some t" for c t
  proof -
    have "trie_ok fs d (p @ [c]) t" using Nil.prems(3) that by blast
    moreover have "\<not> prefix (p @ [c]) wd" using Nil.prems(1) by simp
    ultimately show ?thesis by (rule trie_ok_frame [OF _ ag])
  qed
  with Nil.prems(2) show ?case
    by (simp add: trie_ok_Node)
next
  case (Cons c cs)
  have off: "trie_ok fs' d' (p @ [c']) t" if "m c' = Some t" "c' \<noteq> c" for c' t
  proof -
    have "trie_ok fs d (p @ [c']) t" using Cons.prems(3) that by blast
    moreover have "\<not> prefix (p @ [c']) wd" using Cons.prems(1) that by simp
    ultimately show ?thesis by (rule trie_ok_frame [OF _ ag])
  qed
  show ?case
  proof (cases "m c")
    case None
    then have "trie_ok fs' d' (p @ [c']) t" if "m c' = Some t" for c' t
      using off [of c' t] that by (cases "c' = c") auto
    with None Cons.prems(2) show ?thesis
      by (simp add: trie_ok_Node)
  next
    case (Some child)
    obtain mc wc vc where child: "child = Node mc wc vc" by (cases child)
    have "trie_ok fs d (p @ [c]) child"
      using Cons.prems(3) Some by blast
    then have vc_ok: "cache_ok fs d (p @ [c]) vc"
      and gc_ok: "\<forall>c' t. mc c' = Some t \<longrightarrow> trie_ok fs d ((p @ [c]) @ [c']) t"
      unfolding child trie_ok_Node by blast+
    have r_ok: "cache_ok fs d (p @ [c]) (remove1 idx vc)"
      using vc_ok unfolding cache_ok_def
      by (auto intro: sorted_wrt_remove1 dest: notin_set_remove1)
    have "d ! nat i \<noteq> wd" if "i \<in> set (remove1 idx vc)" for i
    proof
      assume e: "d ! nat i = wd"
      have "i \<in> set vc" "i \<noteq> idx"
        using that cache_ok_distinct [OF vc_ok] by (auto dest: notin_set_remove1)
      moreover have "0 \<le> i" "i < int (length d)"
        using vc_ok \<open>i \<in> set vc\<close> unfolding cache_ok_def by blast+
      ultimately have "nat i \<noteq> nat idx" "nat i < length d" "nat idx < length d"
        using idx by auto
      then have "d ! nat i \<noteq> d ! nat idx"
        using dist by (simp add: nth_eq_iff_index_eq)
      with e idx(3) show False by simp
    qed
    then have r_ok': "cache_ok fs' d' (p @ [c]) (remove1 idx vc)"
      using cache_ok_agree [OF r_ok ag] by blast
    have "trie_ok fs' d' (p @ [c]) (removeIndexFromPath cs idx (Node mc wc (remove1 idx vc)))"
      by (rule Cons.IH [OF _ r_ok' gc_ok]) (simp add: Cons.prems(1))
    then have "trie_ok fs' d' (p @ [c']) t"
      if "(m(c \<mapsto> removeIndexFromPath cs idx (Node mc wc (remove1 idx vc)))) c' = Some t" for c' t
      using that off [of c' t] by (cases "c' = c") auto
    with Some Cons.prems(2) show ?thesis
      by (simp add: child trie_ok_Node)
  qed
qed

subsection \<open>Paths are never removed\<close>

lemma hasPath_nodeAt: "hasPath t q \<longleftrightarrow> nodeAt t q \<noteq> None"
proof (induction q arbitrary: t)
  case Nil
  then show ?case by simp
next
  case (Cons c q)
  then show ?case by (cases t) (simp split: option.splits)
qed

lemma nodeAt_Node_fields:
  "hasPath (Node m w v) q \<Longrightarrow> hasPath (Node m w' v') q"
  by (cases q) auto

lemma updateTopKWalk_paths:
  "updateTopKWalk rh k idx cs t = Some t' \<Longrightarrow> hasPath t q \<Longrightarrow> hasPath t' q"
proof (induction cs arbitrary: t t' q)
  case Nil
  obtain m w v where t: "t = Node m w v" by (cases t)
  with Nil show ?case by (auto intro: nodeAt_Node_fields)
next
  case (Cons c cs)
  obtain m w v where t: "t = Node m w v" by (cases t)
  define child where "child = (case m c of None \<Rightarrow> newTrieNode | Some t \<Rightarrow> t)"
  obtain mc wc vc where child: "child = Node mc wc vc" by (cases child)
  from Cons.prems(1) obtain v3 child' where
    rec: "updateTopKWalk rh k idx cs (Node mc wc v3) = Some child'"
    and t': "t' = Node (m(c \<mapsto> child')) w v"
    unfolding t updateTopKWalk.simps child_def [symmetric] Let_def
    by (auto simp: child split: option.splits)
  show ?case
  proof (cases q)
    case Nil
    then show ?thesis by simp
  next
    case q: (Cons c' q')
    show ?thesis
    proof (cases "c' = c")
      case False
      with Cons.prems(2) show ?thesis by (simp add: t t' q)
    next
      case True
      with Cons.prems(2) have "m c = Some child" "hasPath child q'"
        by (auto simp: t q child_def split: option.splits)
      then have "hasPath (Node mc wc v3) q'"
        unfolding child by (rule_tac nodeAt_Node_fields)
      then have "hasPath child' q'"
        using Cons.IH [OF rec] by blast
      with True show ?thesis by (simp add: t' q)
    qed
  qed
qed

lemma updateTopKWalk_path:
  "updateTopKWalk rh k idx cs t = Some t' \<Longrightarrow> hasPath t' cs"
proof (induction cs arbitrary: t t')
  case Nil
  then show ?case by simp
next
  case (Cons c cs)
  obtain m w v where t: "t = Node m w v" by (cases t)
  from Cons.prems obtain n child' where
    "updateTopKWalk rh k idx cs n = Some child'" "t' = Node (m(c \<mapsto> child')) w v"
    unfolding t updateTopKWalk.simps Let_def by (auto split: option.splits)
  then show ?case
    using Cons.IH by simp
qed

lemma createPath_paths: "hasPath t q \<Longrightarrow> hasPath (createPath cs idx t) q"
proof (induction cs arbitrary: t q)
  case Nil
  obtain m w v where t: "t = Node m w v" by (cases t)
  with Nil show ?case by (auto intro: nodeAt_Node_fields)
next
  case (Cons c cs)
  obtain m w v where t: "t = Node m w v" by (cases t)
  show ?case
  proof (cases q)
    case Nil
    then show ?thesis by simp
  next
    case q: (Cons c' q')
    show ?thesis
      using Cons.prems Cons.IH
      by (cases "c' = c") (auto simp: t q Let_def split: option.splits)
  qed
qed

lemma clearWordIndex_paths:
  "clearWordIndex cs t = Some t' \<Longrightarrow> hasPath t q \<Longrightarrow> hasPath t' q"
proof (induction cs arbitrary: t t' q)
  case Nil
  obtain m w v where t: "t = Node m w v" by (cases t)
  with Nil show ?case by (auto intro: nodeAt_Node_fields)
next
  case (Cons c cs)
  obtain m w v where t: "t = Node m w v" by (cases t)
  from Cons.prems(1) obtain child child' where
    c: "m c = Some child" "clearWordIndex cs child = Some child'" "t' = Node (m(c \<mapsto> child')) w v"
    unfolding t by (auto split: option.splits)
  show ?case
  proof (cases q)
    case Nil
    then show ?thesis by simp
  next
    case q: (Cons c' q')
    show ?thesis
      using Cons.prems(2) Cons.IH [OF c(2)] c(1)
      by (cases "c' = c") (auto simp: t c(3) q split: option.splits)
  qed
qed

lemma clearWordIndex_Some: "hasPath t cs \<Longrightarrow> clearWordIndex cs t \<noteq> None"
proof (induction cs arbitrary: t)
  case Nil
  then show ?case by (cases t) simp
next
  case (Cons c cs)
  obtain m w v where t: "t = Node m w v" by (cases t)
  with Cons.prems obtain child where c: "m c = Some child" "hasPath child cs"
    by (auto split: option.splits)
  then obtain child' where "clearWordIndex cs child = Some child'"
    using Cons.IH by blast
  with c t show ?case by simp
qed

lemma removeIndexFromPath_paths:
  "hasPath t q \<Longrightarrow> hasPath (removeIndexFromPath cs idx t) q"
proof (induction cs arbitrary: t q)
  case Nil
  then show ?case by simp
next
  case (Cons c cs)
  obtain m w v where t: "t = Node m w v" by (cases t)
  show ?case
  proof (cases "m c")
    case None
    with Cons.prems t show ?thesis by simp
  next
    case (Some child)
    obtain mc wc vc where child: "child = Node mc wc vc" by (cases child)
    show ?thesis
    proof (cases q)
      case Nil
      then show ?thesis by simp
    next
      case q: (Cons c' q')
      show ?thesis
      proof (cases "c' = c")
        case False
        with Cons.prems Some show ?thesis by (simp add: t q)
      next
        case True
        with Cons.prems Some have "hasPath (Node mc wc vc) q'"
          by (simp add: t q child)
        then have "hasPath (Node mc wc (remove1 idx vc)) q'"
          by (rule nodeAt_Node_fields)
        then have "hasPath (removeIndexFromPath cs idx (Node mc wc (remove1 idx vc))) q'"
          by (rule Cons.IH)
        with True Some show ?thesis by (simp add: t q child)
      qed
    qed
  qed
qed

subsection \<open>The entry points\<close>

lemma ensureWordIndex_props:
  assumes reg: "registry_ok e" and w: "w \<noteq> []" and ens: "ensureWordIndex w e = (idx, e1)"
  shows "registry_ok e1" and "0 \<le> idx" and "idx < int (length (dict e1))"
    and "dict e1 ! nat idx = w" and "root e1 = root e" and "perNodeK e1 = perNodeK e"
    and "agree_except w (freqs e) (dict e) (freqs e1) (dict e1)"
    and "set (dict e1) = insert w (set (dict e))"
proof -
  have bij: "wordToIndex e w' = Some i \<longleftrightarrow>
      0 \<le> i \<and> i < int (length (dict e)) \<and> dict e ! nat i = w'" for w' i
    using reg unfolding registry_ok_def by blast
  have len: "length (freqs e) = length (dict e)" "length (wordSeen e) = length (dict e)"
    and dist: "distinct (dict e)" and ne: "[] \<notin> set (dict e)"
    using reg unfolding registry_ok_def by blast+
  have "registry_ok e1 \<and> 0 \<le> idx \<and> idx < int (length (dict e1)) \<and> dict e1 ! nat idx = w
      \<and> root e1 = root e \<and> perNodeK e1 = perNodeK e
      \<and> agree_except w (freqs e) (dict e) (freqs e1) (dict e1)
      \<and> set (dict e1) = insert w (set (dict e))" (is ?goal)
  proof (cases "wordToIndex e w")
    case (Some i)
    with ens have e1: "e1 = e" "idx = i"
      by (simp_all add: ensureWordIndex_def)
    have i: "0 \<le> i" "i < int (length (dict e))" "dict e ! nat i = w"
      using bij [of w i] Some by simp_all
    then have "w \<in> set (dict e)"
      by (metis nat_less_iff nth_mem)
    then have "set (dict e) = insert w (set (dict e))" by blast
    with e1 i reg len show ?goal
      by (simp add: agree_except_def)
  next
    case None
    let ?n = "length (dict e)"
    from None ens have idx: "idx = int ?n"
      and e1: "e1 = e\<lparr>dict := dict e @ [w], freqs := freqs e @ [0],
                      wordSeen := wordSeen e @ [False],
                      wordToIndex := (wordToIndex e)(w \<mapsto> int ?n)\<rparr>"
      by (auto simp: ensureWordIndex_def Let_def)
    have notin: "w \<notin> set (dict e)"
    proof
      assume "w \<in> set (dict e)"
      then obtain j where "j < ?n" "dict e ! j = w"
        by (auto simp: in_set_conv_nth)
      then have "wordToIndex e w = Some (int j)"
        using bij [of w "int j"] by simp
      with None show False by simp
    qed
    have nth_old: "(dict e @ [w]) ! j = dict e ! j" if "j < ?n" for j
      using that by (simp add: nth_append)
    have bij1: "((wordToIndex e)(w \<mapsto> int ?n)) w' = Some i \<longleftrightarrow>
        0 \<le> i \<and> i < int (length (dict e @ [w])) \<and> (dict e @ [w]) ! nat i = w'" for w' i
    proof (cases "w' = w")
      case True
      have "(dict e @ [w]) ! nat i \<noteq> w" if "0 \<le> i" "i < int ?n"
      proof -
        have "nat i < ?n" using that by auto
        then have "dict e ! nat i \<in> set (dict e)" by simp
        with notin nth_old [OF \<open>nat i < ?n\<close>] show ?thesis by auto
      qed
      then have "i = int ?n" if "0 \<le> i" "i < int (length (dict e @ [w]))"
          "(dict e @ [w]) ! nat i = w"
        using that by (cases "i < int ?n") auto
      moreover have "(dict e @ [w]) ! nat (int ?n) = w" by simp
      ultimately show ?thesis
        using True by auto
    next
      case False
      have "(dict e @ [w]) ! nat i = w' \<longleftrightarrow> i < int ?n \<and> dict e ! nat i = w'"
        if "0 \<le> i" "i < int (length (dict e @ [w]))"
      proof (cases "i < int ?n")
        case True
        then have "nat i < ?n" using that by auto
        with True nth_old show ?thesis by simp
      next
        case False
        with that have "nat i = ?n" by auto
        with False \<open>w' \<noteq> w\<close> show ?thesis by simp
      qed
      then show ?thesis
        using False bij [of w' i] by auto
    qed
    have "registry_ok e1"
      unfolding registry_ok_def e1 using len dist ne notin w bij1 by auto
    moreover have "agree_except w (freqs e) (dict e) (freqs e1) (dict e1)"
      unfolding agree_except_def e1 using len by (simp add: nth_append)
    ultimately show ?goal
      unfolding idx by (simp add: e1)
  qed
  then show "registry_ok e1" and "0 \<le> idx" and "idx < int (length (dict e1))"
    and "dict e1 ! nat idx = w" and "root e1 = root e" and "perNodeK e1 = perNodeK e"
    and "agree_except w (freqs e) (dict e) (freqs e1) (dict e1)"
    and "set (dict e1) = insert w (set (dict e))"
    by blast+
qed

lemma registry_ok_root [simp]: "registry_ok (e\<lparr>root := r\<rparr>) = registry_ok e"
  by (simp add: registry_ok_def)

lemma registry_ok_perNodeK [simp]: "registry_ok (e\<lparr>perNodeK := k\<rparr>) = registry_ok e"
  by (simp add: registry_ok_def)

lemma registry_ok_update:
  "registry_ok e \<Longrightarrow>
   registry_ok (e\<lparr>freqs := (freqs e)[j := x], wordSeen := (wordSeen e)[j' := b]\<rparr>)"
  by (simp add: registry_ok_def)

lemma registry_ok_freqs: "registry_ok e \<Longrightarrow> registry_ok (e\<lparr>freqs := (freqs e)[j := x]\<rparr>)"
  by (simp add: registry_ok_def)

lemma registry_ok_wordSeen:
  "registry_ok e \<Longrightarrow> registry_ok (e\<lparr>wordSeen := (wordSeen e)[j := b]\<rparr>)"
  by (simp add: registry_ok_def)

lemma agree_except_update:
  assumes ag: "agree_except w fs d fs1 d1" and j: "d1 ! j = w"
  shows "agree_except w fs d (fs1[j := x]) d1"
proof -
  have "fs1[j := x] ! i = fs ! i" if "i < length d" "d ! i \<noteq> w" for i
  proof -
    have "d1 ! i = d ! i" "fs1 ! i = fs ! i"
      using ag that unfolding agree_except_def by blast+
    with that j have "i \<noteq> j" by auto
    then show ?thesis using \<open>fs1 ! i = fs ! i\<close> by simp
  qed
  then show ?thesis
    using ag unfolding agree_except_def by simp
qed

lemma registry_strict_total:
  "registry_ok e \<Longrightarrow> strict_total_on {a. 0 \<le> a \<and> a < int (length (dict e))} (higher (freqs e) (dict e))"
  by (simp add: registry_ok_def higher_strict_total)

lemma updateTopKForWord_ok:
  assumes reg: "registry_ok e2"
    and ag: "agree_except w fs d (freqs e2) (dict e2)"
    and idx: "0 \<le> idx" "idx < int (length (dict e2))" "dict e2 ! nat idx = w"
    and tr: "trie_ok fs d [] (root e2)"
    and paths: "\<forall>w'\<in>set (dict e2). w' \<noteq> w \<longrightarrow> hasPath (root e2) w'"
    and upd: "updateTopKForWord w idx e2 = Some e3"
  shows "engine_ok e3"
proof -
  obtain m wi v where r2: "root e2 = Node m wi v" by (cases "root e2")
  from upd obtain r where
    walk: "updateTopKWalk (higher (freqs e2) (dict e2)) (perNodeK e2) idx w (Node m wi v) = Some r"
    and e3: "e3 = e2\<lparr>root := r\<rparr>"
    by (auto simp: updateTopKForWord_def r2 split: option.splits)
  have "cache_ok fs d [] v" and ch: "\<forall>c t. m c = Some t \<longrightarrow> trie_ok fs d ([] @ [c]) t"
    using tr unfolding r2 trie_ok_Node by simp_all
  then have "v = []" by (simp add: cache_ok_def)
  then have c0: "cache_ok (freqs e2) (dict e2) [] v" by (simp add: cache_ok_def)
  have "trie_ok (freqs e2) (dict e2) [] r"
    by (rule updateTopKWalk_ok [OF ag registry_strict_total [OF reg] idx _ c0 ch walk]) simp
  moreover have "hasPath r w'" if "w' \<in> set (dict e2)" for w'
  proof (cases "w' = w")
    case True
    then show ?thesis using updateTopKWalk_path [OF walk] by simp
  next
    case False
    then have "hasPath (Node m wi v) w'" using paths that r2 by simp
    then show ?thesis by (rule updateTopKWalk_paths [OF walk])
  qed
  ultimately show ?thesis
    using reg by (simp add: engine_ok_def e3)
qed

lemma set_freq_ok:
  assumes ok: "engine_ok e" and w: "w \<noteq> []" and ens: "ensureWordIndex w e = (idx, e1)"
    and upd: "updateTopKForWord w idx
        (e1\<lparr>freqs := (freqs e1)[nat idx := x], wordSeen := (wordSeen e1)[nat idx := b]\<rparr>) = Some e'"
  shows "engine_ok e'"
proof -
  have reg: "registry_ok e" and tr: "trie_ok (freqs e) (dict e) [] (root e)"
    and paths: "\<forall>w\<in>set (dict e). hasPath (root e) w"
    using ok unfolding engine_ok_def by blast+
  note p = ensureWordIndex_props [OF reg w ens]
  let ?e2 = "e1\<lparr>freqs := (freqs e1)[nat idx := x], wordSeen := (wordSeen e1)[nat idx := b]\<rparr>"
  have "registry_ok ?e2" using registry_ok_update [OF p(1)] .
  moreover have "agree_except w (freqs e) (dict e) (freqs ?e2) (dict ?e2)"
    using agree_except_update [OF p(7) p(4)] by simp
  moreover have "\<forall>w'\<in>set (dict ?e2). w' \<noteq> w \<longrightarrow> hasPath (root ?e2) w'"
    using paths p(5,8) by simp
  moreover have "trie_ok (freqs e) (dict e) [] (root ?e2)"
    using tr p(5) by simp
  ultimately show ?thesis
    using updateTopKForWord_ok [of ?e2 w "freqs e" "dict e" idx e'] p(2,3,4) upd by simp
qed

lemma insert_word_ok: "engine_ok e \<Longrightarrow> insert_word w f e = Some e' \<Longrightarrow> engine_ok e'"
  unfolding insert_word_def
  by (cases "w = []"; cases "ensureWordIndex w e") (auto intro: set_freq_ok)

lemma updateFrequency_ok: "engine_ok e \<Longrightarrow> updateFrequency w f e = Some e' \<Longrightarrow> engine_ok e'"
  unfolding updateFrequency_def
  by (cases "w = []"; cases "ensureWordIndex w e") (auto intro: set_freq_ok)

lemma engine_ok_wordSeen:
  "engine_ok e \<Longrightarrow> engine_ok (e\<lparr>wordSeen := (wordSeen e)[j := b]\<rparr>)"
  using registry_ok_wordSeen [of e j b] by (simp add: engine_ok_def)

lemma loadEntry_ok:
  assumes ok: "engine_ok e" and w: "w \<noteq> []" and ld: "loadEntry w f e = Some e'"
  shows "engine_ok e'"
proof -
  have reg: "registry_ok e" and tr: "trie_ok (freqs e) (dict e) [] (root e)"
    and paths: "\<forall>w\<in>set (dict e). hasPath (root e) w"
    using ok unfolding engine_ok_def by blast+
  obtain idx e1 where ens: "ensureWordIndex w e = (idx, e1)"
    by (cases "ensureWordIndex w e")
  note p = ensureWordIndex_props [OF reg w ens]
  let ?e2 = "e1\<lparr>freqs := (freqs e1)[nat idx := f], root := createPath w idx (root e1)\<rparr>"
  from ld ens obtain e3 where
    upd: "updateTopKForWord w idx ?e2 = Some e3"
    and e': "e' = e3\<lparr>wordSeen := (wordSeen e3)[nat idx := True]\<rparr>"
    by (auto simp: loadEntry_def insertIntoTrie_def split: option.splits)
  have "registry_ok ?e2" using registry_ok_freqs [OF p(1)] by simp
  moreover have "agree_except w (freqs e) (dict e) (freqs ?e2) (dict ?e2)"
    using agree_except_update [OF p(7) p(4)] by simp
  moreover have "\<forall>w'\<in>set (dict ?e2). w' \<noteq> w \<longrightarrow> hasPath (root ?e2) w'"
    using paths p(5,8) by (simp add: createPath_paths)
  moreover have "trie_ok (freqs e) (dict e) [] (root ?e2)"
    using tr p(5) by (simp add: createPath_ok)
  ultimately have "engine_ok e3"
    using updateTopKForWord_ok [of ?e2 w "freqs e" "dict e" idx e3] p(2,3,4) upd by simp
  then show ?thesis
    unfolding e' by (rule engine_ok_wordSeen)
qed

lemma remove_ok:
  assumes ok: "engine_ok e"
  shows "engine_ok (remove w e)"
proof (cases "w = [] \<or> wordToIndex e w = None")
  case True
  then show ?thesis using ok by (auto simp: remove_def)
next
  case False
  then obtain idx where wi: "wordToIndex e w = Some idx" and w: "w \<noteq> []" by auto
  have reg: "registry_ok e" and tr: "trie_ok (freqs e) (dict e) [] (root e)"
    and paths: "\<forall>w\<in>set (dict e). hasPath (root e) w"
    using ok unfolding engine_ok_def by blast+
  have idx: "0 \<le> idx" "idx < int (length (dict e))" "dict e ! nat idx = w"
    using reg wi unfolding registry_ok_def by blast+
  then have "w \<in> set (dict e)"
    by (metis nat_less_iff nth_mem)
  then have "hasPath (root e) w" using paths by blast
  then obtain r where r: "clearWordIndex w (root e) = Some r"
    using clearWordIndex_Some by blast
  let ?fs = "(freqs e)[nat idx := 0]"
  let ?e1 = "e\<lparr>freqs := ?fs, wordSeen := (wordSeen e)[nat idx := False]\<rparr>"
  have res: "remove w e = ?e1\<lparr>root := removeIndexFromPath w idx r\<rparr>"
    using w wi r by (simp add: remove_def)
  have reg1: "registry_ok ?e1" by (rule registry_ok_update [OF reg])
  have "agree_except w (freqs e) (dict e) (freqs e) (dict e)"
    using reg by (simp add: agree_except_def registry_ok_def)
  then have ag: "agree_except w (freqs e) (dict e) ?fs (dict e)"
    by (rule agree_except_update) (rule idx(3))
  obtain m wi' v where rn: "r = Node m wi' v" by (cases r)
  have "trie_ok (freqs e) (dict e) [] r"
    using clearWordIndex_ok [OF tr r] .
  then have "cache_ok (freqs e) (dict e) [] v"
    and ch: "\<forall>c t. m c = Some t \<longrightarrow> trie_ok (freqs e) (dict e) ([] @ [c]) t"
    unfolding rn trie_ok_Node by simp_all
  then have "v = []" by (simp add: cache_ok_def)
  then have c0: "cache_ok ?fs (dict e) [] v" by (simp add: cache_ok_def)
  have dist: "distinct (dict e)" using reg by (simp add: registry_ok_def)
  have "trie_ok ?fs (dict e) [] (removeIndexFromPath w idx r)"
    unfolding rn by (rule removeIndexFromPath_ok [OF ag idx dist _ c0 ch]) simp
  moreover have "hasPath (removeIndexFromPath w idx r) w'" if "w' \<in> set (dict e)" for w'
    using paths that clearWordIndex_paths [OF r] removeIndexFromPath_paths by blast
  ultimately show ?thesis
    unfolding res using reg1 by (simp add: engine_ok_def)
qed

lemma setPerNodeK_ok: "engine_ok e \<Longrightarrow> engine_ok (setPerNodeK k e)"
  by (simp add: engine_ok_def setPerNodeK_def)

lemma read_word_nonempty: "read_word s = Some (w, s1) \<Longrightarrow> w \<noteq> [] \<and> (\<forall>c\<in>set w. \<not> isspace c)"
proof -
  assume h: "read_word s = Some (w, s1)"
  let ?t = "dropWhile isspace s"
  from h have ne: "?t \<noteq> []" and w: "w = takeWhile (\<lambda>c. \<not> isspace c) ?t"
    by (auto simp: read_word_def Let_def split: if_splits)
  from ne have "\<not> isspace (hd ?t)" by (metis hd_dropWhile)
  with ne have "w \<noteq> []" unfolding w by (cases ?t) auto
  moreover have "\<forall>c\<in>set w. \<not> isspace c"
    unfolding w by (auto dest: set_takeWhileD)
  ultimately show ?thesis by blast
qed

lemma loadLoop_ok: "engine_ok e \<Longrightarrow> loadLoop s e = Some e' \<Longrightarrow> engine_ok e'"
proof (induction s e rule: loadLoop.induct)
  case (1 s e)
  show ?case
  proof (cases "read_word s")
    case None
    with "1.prems" show ?thesis by (simp add: loadLoop.simps [of s])
  next
    case (Some a)
    obtain w s1 where a: "a = (w, s1)" by (cases a)
    show ?thesis
    proof (cases "read_ll s1")
      case None
      with "1.prems" Some a show ?thesis by (simp add: loadLoop.simps [of s])
    next
      case rl: (Some b)
      obtain f s2 where b: "b = (f, s2)" by (cases b)
      from "1.prems"(2) Some a rl b obtain e1 where
        e1: "loadEntry w f e = Some e1" and rest: "loadLoop s2 e1 = Some e'"
        by (auto simp: loadLoop.simps [of s] split: option.splits)
      have "w \<noteq> []" using read_word_nonempty Some a by blast
      then have "engine_ok e1" using loadEntry_ok [OF "1.prems"(1) _ e1] by simp
      then show ?thesis
        using "1.IH" [OF Some a [symmetric] rl b [symmetric] e1 _ rest] by simp
    qed
  qed
qed

lemma exec_ok: "engine_ok e \<Longrightarrow> exec c e = Some e' \<Longrightarrow> engine_ok e'"
proof (cases c)
  case (LoadFromFile content)
  assume "engine_ok e" "exec c e = Some e'"
  with LoadFromFile show ?thesis
    by (cases content) (auto simp: loadFromFile_def split: option.splits intro: loadLoop_ok)
qed (auto intro: insert_word_ok updateFrequency_ok remove_ok setPerNodeK_ok)

lemma run_ok: "engine_ok e \<Longrightarrow> run cs e = Some e' \<Longrightarrow> engine_ok e'"
  by (induction cs arbitrary: e) (auto split: option.splits dest: exec_ok)

lemma engine_ok_init: "engine_ok (AutocompleteEngine k)"
  by (simp add: engine_ok_def registry_ok_def AutocompleteEngine_def newTrieNode_def
      trie_ok_Node cache_ok_def)

lemma reachable_ok: "reachable e \<Longrightarrow> engine_ok e"
  unfolding reachable_def using run_ok [OF engine_ok_init] by blast

section \<open>Queries\<close>

lemma those_map_Some:
  "(\<forall>x\<in>set xs. f x = Some (g x)) \<Longrightarrow> those (map f xs) = Some (map g xs)"
  by (induction xs) auto

lemma walk_nodeAt: "walk p t = (nodeAt t p, t)"
  using walk_snd [of p t] by (simp add: nodeAt_def prod_eq_iff)

lemma engine_ok_node:
  "engine_ok e \<Longrightarrow> nodeAt (root e) p = Some n \<Longrightarrow> cache_ok (freqs e) (dict e) p (topK n)"
  unfolding engine_ok_def trie_ok_def by (metis append_Nil)

lemma resolve_Some:
  "registry_ok e \<Longrightarrow> 0 \<le> i \<Longrightarrow> i < int (length (dict e)) \<Longrightarrow>
   resolve e i = Some (dict e ! nat i, freqs e ! nat i)"
  by (auto simp: resolve_def registry_ok_def)

lemma getTopK_result:
  assumes ok: "engine_ok e"
  shows "getTopK p K e =
     Some (if K \<le> 0 then []
           else case nodeAt (root e) p of
                  None \<Rightarrow> []
                | Some n \<Rightarrow> map (\<lambda>i. (dict e ! nat i, freqs e ! nat i))
                             (take (nat (min K (int (length (topK n))))) (topK n)), e)"
proof (cases "K \<le> 0")
  case True
  then show ?thesis by (simp add: getTopK_def)
next
  case False
  show ?thesis
  proof (cases "nodeAt (root e) p")
    case None
    with False show ?thesis by (simp add: getTopK_def walk_nodeAt)
  next
    case (Some n)
    let ?ids = "take (nat (min K (int (length (topK n))))) (topK n)"
    have reg: "registry_ok e" using ok by (simp add: engine_ok_def)
    have "resolve e i = Some (dict e ! nat i, freqs e ! nat i)" if "i \<in> set ?ids" for i
    proof -
      have "i \<in> set (topK n)" using that by (rule in_set_takeD)
      then have "0 \<le> i" "i < int (length (dict e))"
        using engine_ok_node [OF ok Some] unfolding cache_ok_def by blast+
      then show ?thesis by (rule resolve_Some [OF reg])
    qed
    then have "those (map (resolve e) ?ids) = Some (map (\<lambda>i. (dict e ! nat i, freqs e ! nat i)) ?ids)"
      by (intro those_map_Some) blast
    with False Some show ?thesis
      by (simp add: getTopK_def walk_nodeAt Let_def)
  qed
qed

lemma reachable_run:
  "run cs (AutocompleteEngine k) \<noteq> None \<Longrightarrow> reachable (the (run cs (AutocompleteEngine k)))"
  unfolding reachable_def by auto

lemmas engine_eval =
  insert_word_def updateFrequency_def remove_def setPerNodeK_def AutocompleteEngine_def
  ensureWordIndex_def updateTopKForWord_def newTrieNode_def sort_by_def trimTopK_def
  higher_def getTopK_def resolve_def nodeAt_def Let_def

text \<open>
  Claim C8. A query leaves the engine as it found it: whenever \<open>getTopK\<close> returns, the
  engine it hands back is the engine it was given, and in every reachable state it returns.
\<close>
theorem getTopK_pure_read:
  "(\<forall>out e'. getTopK p K e = Some (out, e') \<longrightarrow> e' = e)
   \<and> (reachable e \<longrightarrow> (\<exists>out. getTopK p K e = Some (out, e)))"
proof
  show "\<forall>out e'. getTopK p K e = Some (out, e') \<longrightarrow> e' = e"
    by (auto simp: getTopK_def walk_nodeAt Let_def split: if_splits option.splits)
  show "reachable e \<longrightarrow> (\<exists>out. getTopK p K e = Some (out, e))"
    using getTopK_result [OF reachable_ok] by blast
qed

theorem getTopK_pure_read_witness:
  "\<exists>out. getTopK ''c'' 2 (the (run [Insert ''cat'' 5, Insert ''car'' 3] (AutocompleteEngine 10)))
     = Some (out, the (run [Insert ''cat'' 5, Insert ''car'' 3] (AutocompleteEngine 10)))"
proof -
  have "run [Insert ''cat'' 5, Insert ''car'' 3] (AutocompleteEngine 10) \<noteq> None"
    by (simp add: engine_eval)
  then have "reachable (the (run [Insert ''cat'' 5, Insert ''car'' 3] (AutocompleteEngine 10)))"
    by (rule reachable_run)
  then show ?thesis
    using getTopK_pure_read [of "''c''" 2
        "the (run [Insert ''cat'' 5, Insert ''car'' 3] (AutocompleteEngine 10))"]
    by blast
qed

text \<open>
  Claim C10. In every reachable state the three arrays of the registry have the same
  length, every index in the list of any node is an index of the registry, and the reads
  \<open>dict[idx]\<close> and \<open>freqs[idx]\<close> of \<open>getTopK\<close> are in range for every prefix and count
  (the model returns \<open>None\<close> only for a read out of range).
\<close>
theorem cached_indices_in_bounds:
  "reachable e \<Longrightarrow>
     length (freqs e) = length (dict e) \<and> length (wordSeen e) = length (dict e)
     \<and> (\<forall>p n i. nodeAt (root e) p = Some n \<longrightarrow> i \<in> set (topK n)
           \<longrightarrow> 0 \<le> i \<and> i < int (length (dict e)))
     \<and> (\<forall>p K. getTopK p K e \<noteq> None)"
proof -
  assume "reachable e"
  then have ok: "engine_ok e" by (rule reachable_ok)
  then have "length (freqs e) = length (dict e)" "length (wordSeen e) = length (dict e)"
    by (simp_all add: engine_ok_def registry_ok_def)
  moreover have "0 \<le> i \<and> i < int (length (dict e))"
    if "nodeAt (root e) p = Some n" "i \<in> set (topK n)" for p n i
    using engine_ok_node [OF ok that(1)] that(2) unfolding cache_ok_def by blast
  moreover have "getTopK p K e \<noteq> None" for p K
    by (simp add: getTopK_result [OF ok])
  ultimately show ?thesis by blast
qed

theorem cached_indices_in_bounds_witness:
  "getTopK ''ca'' 2 (the (run [Insert ''cat'' 5, Remove ''cat'', Insert ''car'' 3]
      (AutocompleteEngine 10))) \<noteq> None"
proof -
  have "run [Insert ''cat'' 5, Remove ''cat'', Insert ''car'' 3] (AutocompleteEngine 10) \<noteq> None"
    by (simp add: engine_eval)
  then have "reachable (the (run [Insert ''cat'' 5, Remove ''cat'', Insert ''car'' 3]
      (AutocompleteEngine 10)))"
    by (rule reachable_run)
  then show ?thesis
    using cached_indices_in_bounds by blast
qed

text \<open>
  Claim C1, as amended. \<open>getTopK("", K)\<close> returns the first entries of the list of the
  root, and that list is empty in every reachable state (\<open>updateTopKForWord\<close> writes the
  lists of the nodes below the root only): the result is empty.
\<close>
theorem empty_prefix_returns_root_cache:
  "reachable e \<Longrightarrow> topK (root e) = [] \<and> getTopK [] K e = Some ([], e)"
proof -
  assume "reachable e"
  then have ok: "engine_ok e" by (rule reachable_ok)
  have "cache_ok (freqs e) (dict e) [] (topK (root e))"
    by (rule engine_ok_node [OF ok]) simp
  then have "topK (root e) = []" by (simp add: cache_ok_def)
  then show ?thesis by (simp add: getTopK_result [OF ok])
qed

theorem empty_prefix_returns_root_cache_witness:
  "topK (root (the (run [Insert ''a'' 1] (AutocompleteEngine 10)))) = []
   \<and> getTopK [] 1 (the (run [Insert ''a'' 1] (AutocompleteEngine 10)))
       = Some ([], the (run [Insert ''a'' 1] (AutocompleteEngine 10)))"
proof -
  have "run [Insert ''a'' 1] (AutocompleteEngine 10) \<noteq> None"
    by (simp add: engine_eval)
  then have "reachable (the (run [Insert ''a'' 1] (AutocompleteEngine 10)))"
    by (rule reachable_run)
  then show ?thesis
    by (rule empty_prefix_returns_root_cache)
qed

text \<open>
  The claim as the specification states it fails after one insert: the vocabulary holds
  \<open>a\<close> with frequency 1, the best term overall, and the query for the empty prefix
  returns nothing.
\<close>
theorem empty_prefix_counterexample:
  "getTopK [] 1 (the (run [Insert ''a'' 1] (AutocompleteEngine 10)))
     = Some ([], the (run [Insert ''a'' 1] (AutocompleteEngine 10)))
   \<and> spec_globalTopK 1 (the (run [Insert ''a'' 1] (AutocompleteEngine 10))) = [(''a'', 1)]"
  by (simp add: engine_eval spec_globalTopK_def)

text \<open>
  Claim C4. On indices of the registry \<open>higher a b\<close> holds exactly when \<open>a\<close> has the
  larger frequency, or the same frequency and the smaller text in the byte-wise
  lexicographic order; where the texts are distinct this is a strict total order. With
  room for three entries per node, inserting cat (5), car (3) and cart (10) makes the
  query for \<open>ca\<close> with count 3 return cart, cat, car in this order.
\<close>
theorem rank_order:
  assumes "length fs = length d" and "distinct d"
  shows "(\<forall>a b. 0 \<le> a \<and> a < int (length d) \<and> 0 \<le> b \<and> b < int (length d) \<longrightarrow>
            (higher fs d a b \<longleftrightarrow>
               sint (fs ! nat b) < sint (fs ! nat a)
               \<or> (fs ! nat a = fs ! nat b \<and> d ! nat a < d ! nat b)))
     \<and> strict_total_on {a. 0 \<le> a \<and> a < int (length d)} (higher fs d)
     \<and> (3 \<le> k \<longrightarrow>
          map_option fst (getTopK ''ca'' 3
            (the (run [Insert ''cat'' 5, Insert ''car'' 3, Insert ''cart'' 10] (AutocompleteEngine k))))
          = Some [(''cart'', 10), (''cat'', 5), (''car'', 3)])"
proof (intro conjI allI impI)
  fix a b
  assume "0 \<le> a \<and> a < int (length d) \<and> 0 \<le> b \<and> b < int (length d)"
  then show "higher fs d a b \<longleftrightarrow>
               sint (fs ! nat b) < sint (fs ! nat a)
               \<or> (fs ! nat a = fs ! nat b \<and> d ! nat a < d ! nat b)"
    using assms(1) by (auto simp: higher_def Let_def)
next
  show "strict_total_on {a. 0 \<le> a \<and> a < int (length d)} (higher fs d)"
    using assms by (rule higher_strict_total)
next
  assume "3 \<le> k"
  then show "map_option fst (getTopK ''ca'' 3
            (the (run [Insert ''cat'' 5, Insert ''car'' 3, Insert ''cart'' 10] (AutocompleteEngine k))))
          = Some [(''cart'', 10), (''cat'', 5), (''car'', 3)]"
    by (simp add: engine_eval)
qed

theorem rank_order_witness:
  "higher [5, 3, 10] [''cat'', ''car'', ''cart''] 2 0
   \<and> higher [5, 5, 10] [''cat'', ''car'', ''cart''] 1 0
   \<and> map_option fst (getTopK ''ca'' 3
         (the (run [Insert ''cat'' 5, Insert ''car'' 3, Insert ''cart'' 10]
            (AutocompleteEngine DEFAULT_PER_NODE_K))))
       = Some [(''cart'', 10), (''cat'', 5), (''car'', 3)]"
proof -
  have d: "distinct [''cat'', ''car'', ''cart'']" by simp
  have l: "length [5, 3, 10 :: freq] = length [''cat'', ''car'', ''cart'']" by simp
  have l': "length [5, 5, 10 :: freq] = length [''cat'', ''car'', ''cart'']" by simp
  have k: "3 \<le> DEFAULT_PER_NODE_K" by (simp add: DEFAULT_PER_NODE_K_def)
  show ?thesis
    using rank_order [OF l d, of DEFAULT_PER_NODE_K] rank_order [OF l' d, of DEFAULT_PER_NODE_K] k
    by simp
qed

section \<open>Removal\<close>

lemma loadLoop_readEntries: "loadLoop s e = loadEntries (readEntries s) e"
proof (induction s e rule: loadLoop.induct)
  case (1 s e)
  show ?case
  proof (cases "read_word s")
    case None
    then show ?thesis by (simp add: loadLoop.simps [of s] readEntries.simps [of s])
  next
    case (Some a)
    obtain w s1 where a: "a = (w, s1)" by (cases a)
    show ?thesis
    proof (cases "read_ll s1")
      case None
      with Some a show ?thesis by (simp add: loadLoop.simps [of s] readEntries.simps [of s])
    next
      case rl: (Some b)
      obtain f s2 where b: "b = (f, s2)" by (cases b)
      show ?thesis
      proof (cases "loadEntry w f e")
        case None
        with Some a rl b show ?thesis
          by (simp add: loadLoop.simps [of s] readEntries.simps [of s])
      next
        case e1: (Some e1)
        have "loadLoop s2 e1 = loadEntries (readEntries s2) e1"
          by (rule "1.IH" [OF Some a [symmetric] rl b [symmetric] e1])
        with Some a rl b e1 show ?thesis
          by (simp add: loadLoop.simps [of s] readEntries.simps [of s])
      qed
    qed
  qed
qed

lemma readEntries_nonempty: "(w, f) \<in> set (readEntries s) \<Longrightarrow> w \<noteq> []"
proof (induction s rule: readEntries.induct)
  case (1 s)
  show ?case
  proof (cases "read_word s")
    case None
    with "1.prems" show ?thesis by (simp add: readEntries.simps [of s])
  next
    case (Some a)
    obtain w' s1 where a: "a = (w', s1)" by (cases a)
    show ?thesis
    proof (cases "read_ll s1")
      case None
      with "1.prems" Some a show ?thesis by (simp add: readEntries.simps [of s])
    next
      case rl: (Some b)
      obtain f' s2 where b: "b = (f', s2)" by (cases b)
      from "1.prems" Some a rl b have "(w, f) = (w', f') \<or> (w, f) \<in> set (readEntries s2)"
        by (simp add: readEntries.simps [of s])
      then show ?thesis
      proof
        assume "(w, f) = (w', f')"
        then show ?thesis using read_word_nonempty Some a by blast
      next
        assume "(w, f) \<in> set (readEntries s2)"
        then show ?thesis
          by (rule "1.IH" [OF Some a [symmetric] rl b [symmetric]])
      qed
    qed
  qed
qed

lemma cached_nowhere_Node:
  "cached_nowhere i (Node m w v) \<longleftrightarrow>
     i \<notin> set v \<and> (\<forall>c t. m c = Some t \<longrightarrow> cached_nowhere i t)"
proof
  assume h: "cached_nowhere i (Node m w v)"
  have "i \<notin> set v"
    using h [unfolded cached_nowhere_def, rule_format, of "[]" "Node m w v"] by simp
  moreover have "cached_nowhere i t" if "m c = Some t" for c t
    unfolding cached_nowhere_def
  proof (intro allI impI)
    fix q n
    assume "nodeAt t q = Some n"
    then have "nodeAt (Node m w v) (c # q) = Some n" using that by simp
    then show "i \<notin> set (topK n)"
      using h unfolding cached_nowhere_def by blast
  qed
  ultimately show "i \<notin> set v \<and> (\<forall>c t. m c = Some t \<longrightarrow> cached_nowhere i t)" by blast
next
  assume h: "i \<notin> set v \<and> (\<forall>c t. m c = Some t \<longrightarrow> cached_nowhere i t)"
  show "cached_nowhere i (Node m w v)"
    unfolding cached_nowhere_def
  proof (intro allI impI)
    fix q n
    assume n: "nodeAt (Node m w v) q = Some n"
    show "i \<notin> set (topK n)"
    proof (cases q)
      case Nil
      with n h show ?thesis by auto
    next
      case (Cons c q')
      with n obtain t where "m c = Some t" "nodeAt t q' = Some n"
        by (auto split: option.splits)
      then show ?thesis using h unfolding cached_nowhere_def by blast
    qed
  qed
qed

lemma cached_nowhere_newTrieNode [simp]: "cached_nowhere i newTrieNode"
  by (simp add: newTrieNode_def cached_nowhere_Node)

lemma updateTopKWalk_nowhere:
  "i \<noteq> idx \<Longrightarrow> cached_nowhere i t \<Longrightarrow> updateTopKWalk rh k idx cs t = Some t'
   \<Longrightarrow> cached_nowhere i t'"
proof (induction cs arbitrary: t t')
  case Nil
  obtain m w v where t: "t = Node m w v" by (cases t)
  with Nil show ?case by (auto simp: cached_nowhere_Node)
next
  case (Cons c cs)
  obtain m w v where t: "t = Node m w v" by (cases t)
  define child where "child = (case m c of None \<Rightarrow> newTrieNode | Some t \<Rightarrow> t)"
  define v1 where "v1 = (if idx \<in> set (topK child) then topK child else topK child @ [idx])"
  define v2 where "v2 = sort_by rh v1"
  obtain mc wc vc where child: "child = Node mc wc vc" by (cases child)
  from Cons.prems(3) obtain v3 child' where
    v3: "trimTopK k v2 = Some v3"
    and rec: "updateTopKWalk rh k idx cs (Node mc wc v3) = Some child'"
    and t': "t' = Node (m(c \<mapsto> child')) w v"
    unfolding t updateTopKWalk.simps child_def [symmetric] Let_def v1_def [symmetric]
      v2_def [symmetric]
    by (auto simp: child split: option.splits)
  have "cached_nowhere i child"
    using Cons.prems(2) unfolding t cached_nowhere_Node child_def
    by (auto split: option.splits)
  then have vc: "i \<notin> set vc" and gc: "\<forall>c t. mc c = Some t \<longrightarrow> cached_nowhere i t"
    unfolding child cached_nowhere_Node by blast+
  have "set v3 \<subseteq> set v1"
    using trimTopK_Some_cases [OF v3] set_take_subset [of "nat k" v2] by (auto simp: v2_def)
  moreover have "i \<notin> set v1"
    using vc Cons.prems(1) by (simp add: v1_def child)
  ultimately have "cached_nowhere i (Node mc wc v3)"
    using gc unfolding cached_nowhere_Node by blast
  then have "cached_nowhere i child'"
    using Cons.IH [OF Cons.prems(1) _ rec] by blast
  then show ?case
    using Cons.prems(2) unfolding t t' cached_nowhere_Node by auto
qed

lemma createPath_nowhere: "cached_nowhere i t \<Longrightarrow> cached_nowhere i (createPath cs idx t)"
proof (induction cs arbitrary: t)
  case Nil
  obtain m w v where t: "t = Node m w v" by (cases t)
  with Nil show ?case by (simp add: cached_nowhere_Node)
next
  case (Cons c cs)
  obtain m w v where t: "t = Node m w v" by (cases t)
  define child where "child = (case m c of None \<Rightarrow> newTrieNode | Some t \<Rightarrow> t)"
  have "cached_nowhere i child"
    using Cons.prems unfolding t cached_nowhere_Node child_def
    by (auto split: option.splits)
  then have "cached_nowhere i (createPath cs idx child)"
    by (rule Cons.IH)
  moreover have "createPath (c # cs) idx t = Node (m(c \<mapsto> createPath cs idx child)) w v"
    by (simp add: t child_def)
  ultimately show ?case
    using Cons.prems unfolding t by (simp add: cached_nowhere_Node)
qed

lemma clearWordIndex_nowhere:
  "cached_nowhere i t \<Longrightarrow> clearWordIndex cs t = Some t' \<Longrightarrow> cached_nowhere i t'"
proof (induction cs arbitrary: t t')
  case Nil
  obtain m w v where t: "t = Node m w v" by (cases t)
  with Nil show ?case by (auto simp: cached_nowhere_Node)
next
  case (Cons c cs)
  obtain m w v where t: "t = Node m w v" by (cases t)
  from Cons.prems(2) obtain child child' where
    c: "m c = Some child" "clearWordIndex cs child = Some child'" "t' = Node (m(c \<mapsto> child')) w v"
    unfolding t by (auto split: option.splits)
  have "cached_nowhere i child"
    using Cons.prems(1) c(1) unfolding t cached_nowhere_Node by blast
  then have "cached_nowhere i child'"
    using Cons.IH c(2) by blast
  then show ?case
    using Cons.prems(1) unfolding t c(3) cached_nowhere_Node by auto
qed

lemma removeIndexFromPath_nowhere:
  "cached_nowhere i t \<Longrightarrow> cached_nowhere i (removeIndexFromPath cs idx t)"
proof (induction cs arbitrary: t)
  case Nil
  then show ?case by simp
next
  case (Cons c cs)
  obtain m w v where t: "t = Node m w v" by (cases t)
  show ?case
  proof (cases "m c")
    case None
    with Cons.prems t show ?thesis by simp
  next
    case (Some child)
    obtain mc wc vc where child: "child = Node mc wc vc" by (cases child)
    have "cached_nowhere i child"
      using Cons.prems Some unfolding t cached_nowhere_Node by blast
    then have "cached_nowhere i (Node mc wc (remove1 idx vc))"
      unfolding child
      unfolding cached_nowhere_Node by (auto dest: notin_set_remove1)
    then have "cached_nowhere i (removeIndexFromPath cs idx (Node mc wc (remove1 idx vc)))"
      by (rule Cons.IH)
    with Cons.prems Some show ?thesis
      by (simp add: t child cached_nowhere_Node)
  qed
qed

lemma trie_ok_nowhere:
  assumes ok: "trie_ok fs d p t" and np: "\<not> prefix p (d ! nat i)"
  shows "cached_nowhere i t"
  unfolding cached_nowhere_def
proof (intro allI impI)
  fix q n
  assume "nodeAt t q = Some n"
  then have c: "cache_ok fs d (p @ q) (topK n)"
    using ok unfolding trie_ok_def by blast
  show "i \<notin> set (topK n)"
  proof
    assume "i \<in> set (topK n)"
    then have "prefix (p @ q) (d ! nat i)"
      using c unfolding cache_ok_def by blast
    then have "prefix p (d ! nat i)"
      using append_prefixD by blast
    with np show False by simp
  qed
qed

lemma removeIndexFromPath_evicts:
  "d ! nat i = p @ cs \<Longrightarrow> i \<notin> set v
   \<Longrightarrow> (\<forall>c t. m c = Some t \<longrightarrow> trie_ok fs d (p @ [c]) t)
   \<Longrightarrow> cached_nowhere i (removeIndexFromPath cs i (Node m w v))"
proof (induction cs arbitrary: p m w v)
  case Nil
  have "cached_nowhere i t" if "m c = Some t" for c t
  proof -
    have "trie_ok fs d (p @ [c]) t" using Nil.prems(3) that by blast
    moreover have "\<not> prefix (p @ [c]) (d ! nat i)" using Nil.prems(1) by simp
    ultimately show ?thesis by (rule trie_ok_nowhere)
  qed
  with Nil.prems(2) show ?case by (simp add: cached_nowhere_Node)
next
  case (Cons c cs)
  have off: "cached_nowhere i t" if "m c' = Some t" "c' \<noteq> c" for c' t
  proof -
    have "trie_ok fs d (p @ [c']) t" using Cons.prems(3) that by blast
    moreover have "\<not> prefix (p @ [c']) (d ! nat i)" using Cons.prems(1) that by simp
    ultimately show ?thesis by (rule trie_ok_nowhere)
  qed
  show ?case
  proof (cases "m c")
    case None
    then have "cached_nowhere i t" if "m c' = Some t" for c' t
      using off [of c' t] that by (cases "c' = c") auto
    with None Cons.prems(2) show ?thesis by (simp add: cached_nowhere_Node)
  next
    case (Some child)
    obtain mc wc vc where child: "child = Node mc wc vc" by (cases child)
    have "trie_ok fs d (p @ [c]) child"
      using Cons.prems(3) Some by blast
    then have vc_ok: "cache_ok fs d (p @ [c]) vc"
      and gc_ok: "\<forall>c' t. mc c' = Some t \<longrightarrow> trie_ok fs d ((p @ [c]) @ [c']) t"
      unfolding child trie_ok_Node by blast+
    have "i \<notin> set (remove1 i vc)"
      using cache_ok_distinct [OF vc_ok] by simp
    then have "cached_nowhere i (removeIndexFromPath cs i (Node mc wc (remove1 i vc)))"
      using Cons.IH [of "p @ [c]" "remove1 i vc" mc wc] Cons.prems(1) gc_ok by simp
    then have "cached_nowhere i t"
      if "(m(c \<mapsto> removeIndexFromPath cs i (Node mc wc (remove1 i vc)))) c' = Some t" for c' t
      using that off [of c' t] by (cases "c' = c") auto
    with Some Cons.prems(2) show ?thesis
      by (simp add: child cached_nowhere_Node)
  qed
qed

lemma ensureWordIndex_other:
  "ensureWordIndex w e = (idx, e1) \<Longrightarrow> w' \<noteq> w \<Longrightarrow> wordToIndex e1 w' = wordToIndex e w'"
  by (auto simp: ensureWordIndex_def Let_def split: option.splits)

lemma registry_index_text:
  "registry_ok e \<Longrightarrow> wordToIndex e w = Some i \<Longrightarrow> dict e ! nat i = w"
  unfolding registry_ok_def by blast

lemma updateTopKForWord_fields:
  "updateTopKForWord w idx e = Some e' \<Longrightarrow>
     dict e' = dict e \<and> freqs e' = freqs e \<and> wordSeen e' = wordSeen e
     \<and> wordToIndex e' = wordToIndex e \<and> perNodeK e' = perNodeK e"
  by (auto simp: updateTopKForWord_def split: option.splits)

lemma updateTopKForWord_nowhere:
  "i \<noteq> idx \<Longrightarrow> cached_nowhere i (root e) \<Longrightarrow> updateTopKForWord w idx e = Some e'
   \<Longrightarrow> cached_nowhere i (root e')"
  by (auto simp: updateTopKForWord_def split: option.splits intro: updateTopKWalk_nowhere)

lemma set_freq_uncached:
  assumes reg: "registry_ok e" and un: "uncached text e" and w: "w \<noteq> []" "w \<noteq> text"
    and ens: "ensureWordIndex w e = (idx, e1)"
    and r2: "root e2 = root e1 \<or> root e2 = createPath w idx (root e1)"
    and w2: "wordToIndex e2 = wordToIndex e1"
    and upd: "updateTopKForWord w idx e2 = Some e3"
  shows "\<forall>i. wordToIndex e3 text = Some i \<longrightarrow> cached_nowhere i (root e3)"
proof (intro allI impI)
  fix i
  assume "wordToIndex e3 text = Some i"
  then have i1: "wordToIndex e1 text = Some i"
    using updateTopKForWord_fields [OF upd] w2 by simp
  then have i0: "wordToIndex e text = Some i"
    using ensureWordIndex_other [OF ens, of "text"] w(2) by simp
  note p = ensureWordIndex_props [OF reg w(1) ens]
  have "dict e1 ! nat i = text"
    using registry_index_text [OF p(1) i1] .
  then have ne: "i \<noteq> idx" using p(4) w(2) by auto
  have "cached_nowhere i (root e)" using un i0 unfolding uncached_def by blast
  then have "cached_nowhere i (root e2)"
    using r2 p(5) by (auto intro: createPath_nowhere)
  then show "cached_nowhere i (root e3)"
    by (rule updateTopKForWord_nowhere [OF ne _ upd])
qed

lemma insert_word_uncached:
  assumes ok: "engine_ok e" and un: "uncached text e" and w: "w \<noteq> text"
    and ins: "insert_word w f e = Some e'"
  shows "uncached text e'"
proof (cases "w = []")
  case True
  with ins un show ?thesis by (simp add: insert_word_def)
next
  case False
  obtain idx e1 where ens: "ensureWordIndex w e = (idx, e1)"
    by (cases "ensureWordIndex w e")
  have reg: "registry_ok e" using ok by (simp add: engine_ok_def)
  let ?e2 = "e1\<lparr>freqs := (freqs e1)[nat idx := freqs e1 ! nat idx + f],
                wordSeen := (wordSeen e1)[nat idx := True]\<rparr>"
  have upd: "updateTopKForWord w idx ?e2 = Some e'"
    using ins False ens by (simp add: insert_word_def)
  show ?thesis
    unfolding uncached_def
    by (rule set_freq_uncached [OF reg un False w ens _ _ upd]) simp_all
qed

lemma updateFrequency_uncached:
  assumes ok: "engine_ok e" and un: "uncached text e" and w: "w \<noteq> text"
    and ins: "updateFrequency w f e = Some e'"
  shows "uncached text e'"
proof (cases "w = []")
  case True
  with ins un show ?thesis by (simp add: updateFrequency_def)
next
  case False
  obtain idx e1 where ens: "ensureWordIndex w e = (idx, e1)"
    by (cases "ensureWordIndex w e")
  have reg: "registry_ok e" using ok by (simp add: engine_ok_def)
  let ?e2 = "e1\<lparr>freqs := (freqs e1)[nat idx := f],
                wordSeen := (wordSeen e1)[nat idx := True]\<rparr>"
  have upd: "updateTopKForWord w idx ?e2 = Some e'"
    using ins False ens by (simp add: updateFrequency_def)
  show ?thesis
    unfolding uncached_def
    by (rule set_freq_uncached [OF reg un False w ens _ _ upd]) simp_all
qed

lemma loadEntry_uncached:
  assumes ok: "engine_ok e" and un: "uncached text e" and w: "w \<noteq> []" "w \<noteq> text"
    and ld: "loadEntry w f e = Some e'"
  shows "uncached text e'"
proof -
  obtain idx e1 where ens: "ensureWordIndex w e = (idx, e1)"
    by (cases "ensureWordIndex w e")
  have reg: "registry_ok e" using ok by (simp add: engine_ok_def)
  let ?e2 = "e1\<lparr>freqs := (freqs e1)[nat idx := f], root := createPath w idx (root e1)\<rparr>"
  from ld ens obtain e3 where
    upd: "updateTopKForWord w idx ?e2 = Some e3"
    and e': "e' = e3\<lparr>wordSeen := (wordSeen e3)[nat idx := True]\<rparr>"
    by (auto simp: loadEntry_def insertIntoTrie_def split: option.splits)
  have "\<forall>i. wordToIndex e3 text = Some i \<longrightarrow> cached_nowhere i (root e3)"
    by (rule set_freq_uncached [OF reg un w ens _ _ upd]) simp_all
  then show ?thesis
    unfolding uncached_def e' by simp
qed

lemma remove_evicts:
  assumes ok: "engine_ok e"
  shows "uncached w (remove w e)"
proof (cases "w = [] \<or> wordToIndex e w = None")
  case True
  have reg: "registry_ok e" using ok by (simp add: engine_ok_def)
  have "wordToIndex e [] = None"
  proof (cases "wordToIndex e []")
    case (Some i)
    then have "0 \<le> i" "i < int (length (dict e))" "dict e ! nat i = []"
      using reg unfolding registry_ok_def by blast+
    then have "[] \<in> set (dict e)" by (metis nat_less_iff nth_mem)
    with reg show ?thesis by (simp add: registry_ok_def)
  qed simp
  with True have "wordToIndex e w = None" by auto
  moreover from True have "remove w e = e" by (auto simp: remove_def)
  ultimately show ?thesis by (simp add: uncached_def)
next
  case False
  then obtain idx where wi: "wordToIndex e w = Some idx" and w: "w \<noteq> []" by auto
  have reg: "registry_ok e" and tr: "trie_ok (freqs e) (dict e) [] (root e)"
    and paths: "\<forall>w\<in>set (dict e). hasPath (root e) w"
    using ok unfolding engine_ok_def by blast+
  have idx: "0 \<le> idx" "idx < int (length (dict e))" "dict e ! nat idx = w"
    using reg wi unfolding registry_ok_def by blast+
  then have "w \<in> set (dict e)" by (metis nat_less_iff nth_mem)
  then have "hasPath (root e) w" using paths by blast
  then obtain r where r: "clearWordIndex w (root e) = Some r"
    using clearWordIndex_Some by blast
  have res: "remove w e = e\<lparr>freqs := (freqs e)[nat idx := 0],
        wordSeen := (wordSeen e)[nat idx := False], root := removeIndexFromPath w idx r\<rparr>"
    using w wi r by (simp add: remove_def)
  obtain m wi' v where rn: "r = Node m wi' v" by (cases r)
  have "trie_ok (freqs e) (dict e) [] r"
    using clearWordIndex_ok [OF tr r] .
  then have "cache_ok (freqs e) (dict e) [] v"
    and ch: "\<forall>c t. m c = Some t \<longrightarrow> trie_ok (freqs e) (dict e) ([] @ [c]) t"
    unfolding rn trie_ok_Node by simp_all
  then have "idx \<notin> set v" by (simp add: cache_ok_def)
  then have "cached_nowhere idx (removeIndexFromPath w idx r)"
    unfolding rn using removeIndexFromPath_evicts [of "dict e" idx "[]" w v m "freqs e" wi'] idx(3) ch
    by simp
  then show ?thesis
    unfolding uncached_def res using wi by simp
qed

lemma remove_uncached:
  assumes ok: "engine_ok e" and un: "uncached text e"
  shows "uncached text (remove w e)"
proof (cases "w = text")
  case True
  then show ?thesis using remove_evicts [OF ok] by simp
next
  case False
  show ?thesis
  proof (cases "w = [] \<or> wordToIndex e w = None")
    case True
    then have "remove w e = e" by (auto simp: remove_def)
    with un show ?thesis by simp
  next
    case nt: False
    then obtain idx where wi: "wordToIndex e w = Some idx" and w: "w \<noteq> []" by auto
    show ?thesis
    proof (cases "clearWordIndex w (root e)")
      case None
      with w wi have "remove w e = e\<lparr>freqs := (freqs e)[nat idx := 0],
          wordSeen := (wordSeen e)[nat idx := False]\<rparr>"
        by (simp add: remove_def)
      with un show ?thesis by (simp add: uncached_def)
    next
      case (Some r)
      with w wi have res: "remove w e = e\<lparr>freqs := (freqs e)[nat idx := 0],
          wordSeen := (wordSeen e)[nat idx := False], root := removeIndexFromPath w idx r\<rparr>"
        by (simp add: remove_def)
      have "cached_nowhere i (removeIndexFromPath w idx r)" if "wordToIndex e text = Some i" for i
      proof -
        have "cached_nowhere i (root e)" using un that unfolding uncached_def by blast
        then have "cached_nowhere i r" by (rule clearWordIndex_nowhere [OF _ Some])
        then show ?thesis by (rule removeIndexFromPath_nowhere)
      qed
      then show ?thesis unfolding uncached_def res by simp
    qed
  qed
qed

lemma loadEntries_uncached:
  "engine_ok e \<Longrightarrow> uncached text e \<Longrightarrow> \<forall>(w, f)\<in>set es. w \<noteq> [] \<and> w \<noteq> text
   \<Longrightarrow> loadEntries es e = Some e' \<Longrightarrow> uncached text e'"
proof (induction es arbitrary: e)
  case Nil
  then show ?case by simp
next
  case (Cons a es)
  obtain w f where a: "a = (w, f)" by (cases a)
  from Cons.prems(4) obtain e1 where
    e1: "loadEntry w f e = Some e1" and rest: "loadEntries es e1 = Some e'"
    by (auto simp: a split: option.splits)
  have w: "w \<noteq> []" "w \<noteq> text" using Cons.prems(3) a by auto
  have "engine_ok e1" by (rule loadEntry_ok [OF Cons.prems(1) w(1) e1])
  moreover have "uncached text e1"
    by (rule loadEntry_uncached [OF Cons.prems(1,2) w e1])
  ultimately show ?case
    using Cons.IH [OF _ _ _ rest] Cons.prems(3) by simp
qed

lemma exec_uncached:
  assumes ok: "engine_ok e" and un: "uncached text e" and nt: "\<not> touches text c"
    and ex: "exec c e = Some e'"
  shows "uncached text e'"
proof (cases c)
  case (Insert w f)
  with nt ex show ?thesis using insert_word_uncached [OF ok un] by auto
next
  case (UpdateFrequency w f)
  with nt ex show ?thesis using updateFrequency_uncached [OF ok un] by auto
next
  case (Remove w)
  with ex show ?thesis using remove_uncached [OF ok un] by auto
next
  case (SetPerNodeK k)
  with ex un show ?thesis by (auto simp: setPerNodeK_def uncached_def)
next
  case (LoadFromFile content)
  show ?thesis
  proof (cases content)
    case None
    with LoadFromFile ex un show ?thesis by (simp add: loadFromFile_def)
  next
    case (Some s)
    with LoadFromFile ex have ld: "loadEntries (readEntries s) e = Some e'"
      by (auto simp: loadFromFile_def loadLoop_readEntries split: option.splits)
    have "\<forall>(w, f)\<in>set (readEntries s). w \<noteq> [] \<and> w \<noteq> text"
      using nt LoadFromFile Some readEntries_nonempty by (auto simp: image_iff) 
    then show ?thesis
      by (rule loadEntries_uncached [OF ok un _ ld])
  qed
qed

lemma run_uncached:
  "engine_ok e \<Longrightarrow> uncached text e \<Longrightarrow> \<forall>c\<in>set cs. \<not> touches text c
   \<Longrightarrow> run cs e = Some e' \<Longrightarrow> uncached text e'"
proof (induction cs arbitrary: e)
  case Nil
  then show ?case by simp
next
  case (Cons c cs)
  from Cons.prems(4) obtain e1 where
    e1: "exec c e = Some e1" and rest: "run cs e1 = Some e'"
    by (auto split: option.splits)
  have "engine_ok e1" by (rule exec_ok [OF Cons.prems(1) e1])
  moreover have "uncached text e1"
    by (rule exec_uncached [OF Cons.prems(1,2) _ e1]) (use Cons.prems(3) in simp)
  ultimately show ?case
    using Cons.IH [OF _ _ _ rest] Cons.prems(3) by simp
qed

lemma uncached_not_returned:
  assumes ok: "engine_ok e" and un: "uncached text e" and q: "getTopK p K e = Some (out, e')"
  shows "text \<notin> fst ` set out"
proof
  assume "text \<in> fst ` set out"
  then obtain f where tf: "(text, f) \<in> set out" by auto
  have reg: "registry_ok e" using ok by (simp add: engine_ok_def)
  from q tf obtain n where n: "nodeAt (root e) p = Some n"
    and o: "(text, f) \<in> set (map (\<lambda>i. (dict e ! nat i, freqs e ! nat i))
              (take (nat (min K (int (length (topK n))))) (topK n)))"
    unfolding getTopK_result [OF ok]
    by (auto split: if_splits option.splits)
  then obtain i where "i \<in> set (take (nat (min K (int (length (topK n))))) (topK n))"
    and t: "dict e ! nat i = text"
    by auto
  then have i: "i \<in> set (topK n)" by (auto dest: in_set_takeD)
  have "0 \<le> i" "i < int (length (dict e))"
    using engine_ok_node [OF ok n] i unfolding cache_ok_def by blast+
  with t have "wordToIndex e text = Some i"
    using reg unfolding registry_ok_def by blast
  then have "cached_nowhere i (root e)" using un unfolding uncached_def by blast
  with n i show False unfolding cached_nowhere_def by blast
qed

text \<open>
  Claim C5. In a reachable state, after \<open>remove(text)\<close> and any further calls that return
  and among which none inserts, updates or loads \<open>text\<close>, no query returns \<open>text\<close>,
  whatever the prefix (so for every prefix of \<open>text\<close>) and the requested count.
\<close>
theorem removal_exclusion:
  assumes "reachable e" and "\<forall>c\<in>set cs. \<not> touches text c"
    and "run cs (remove text e) = Some e1" and "getTopK p K e1 = Some (out, e2)"
  shows "text \<notin> fst ` set out"
proof -
  have ok: "engine_ok e" using assms(1) by (rule reachable_ok)
  have ok0: "engine_ok (remove text e)" by (rule remove_ok [OF ok])
  have "uncached text (remove text e)" by (rule remove_evicts [OF ok])
  then have "uncached text e1"
    by (rule run_uncached [OF ok0 _ assms(2,3)])
  moreover have "engine_ok e1" by (rule run_ok [OF ok0 assms(3)])
  ultimately show ?thesis
    using uncached_not_returned assms(4) by blast
qed

theorem removal_exclusion_witness:
  "''cat'' \<notin> fst ` set (fst (the (getTopK ''ca'' 3
      (the (run [Insert ''cart'' 10]
        (remove ''cat'' (the (run [Insert ''cat'' 5, Insert ''car'' 3] (AutocompleteEngine 10)))))))))"
proof -
  let ?e = "the (run [Insert ''cat'' 5, Insert ''car'' 3] (AutocompleteEngine 10))"
  let ?e1 = "the (run [Insert ''cart'' 10] (remove ''cat'' ?e))"
  have r: "reachable ?e"
    by (rule reachable_run) (simp add: engine_eval)
  have t: "\<forall>c\<in>set [Insert ''cart'' 10]. \<not> touches ''cat'' c"
    by simp
  have "run [Insert ''cart'' 10] (remove ''cat'' ?e) \<noteq> None"
    by (simp add: engine_eval)
  then have s: "run [Insert ''cart'' 10] (remove ''cat'' ?e) = Some ?e1"
    by simp
  have "getTopK ''ca'' 3 ?e1 \<noteq> None"
    by (simp add: engine_eval)
  then have g: "getTopK ''ca'' 3 ?e1 = Some (fst (the (getTopK ''ca'' 3 ?e1)), snd (the (getTopK ''ca'' 3 ?e1)))"
    by simp
  show ?thesis
    by (rule removal_exclusion [OF r t s g])
qed

section \<open>Loading and saving\<close>

subsection \<open>Reading what was written\<close>

lemma isspace_newline [simp]: "isspace (CHR 0x0A)"
  by (simp add: isspace_def)

lemma isspace_space [simp]: "isspace CHR '' ''"
  by (simp add: isspace_def)

lemma isdigit_iff: "isdigit c \<longleftrightarrow> 48 \<le> (of_char c :: nat) \<and> (of_char c :: nat) \<le> 57"
  by (simp add: isdigit_def less_eq_char_def)

lemma isdigit_not_space: "isdigit c \<Longrightarrow> \<not> isspace c"
  by (auto simp: isdigit_iff isspace_def)

lemma not_isdigit_newline [simp]: "\<not> isdigit (CHR 0x0A)"
  by (simp add: isdigit_iff)

lemma digit_val_nat: "digit_val c = int (of_char c) - 48"
  by (simp add: digit_val_def of_nat_of_char)

lemma digit_char: "d < 10 \<Longrightarrow> isdigit (char_of (48 + d :: nat)) \<and> digit_val (char_of (48 + d)) = int d"
  by (simp add: isdigit_iff digit_val_nat)

lemma show_nat_digits: "\<forall>c\<in>set (show_nat n). isdigit c"
proof (induction n rule: show_nat.induct)
  case (1 n)
  show ?case
  proof (cases "n < 10")
    case True
    then show ?thesis using digit_char [of n] by (simp add: show_nat.simps [of n])
  next
    case False
    then show ?thesis
      using "1.IH" digit_char [of "n mod 10"] by (simp add: show_nat.simps [of n])
  qed
qed

lemma show_nat_nonempty: "show_nat n \<noteq> []"
  by (simp add: show_nat.simps [of n])

lemma parse_digits_snoc: "parse_digits (ds @ [c]) = 10 * parse_digits ds + digit_val c"
  by (simp add: parse_digits_def)

lemma parse_show_nat: "parse_digits (show_nat n) = int n"
proof (induction n rule: show_nat.induct)
  case (1 n)
  show ?case
  proof (cases "n < 10")
    case True
    then show ?thesis
      using digit_char [of n] by (simp add: show_nat.simps [of n] parse_digits_def)
  next
    case False
    then have "parse_digits (show_nat (n div 10)) = int (n div 10)"
      by (rule "1.IH")
    then show ?thesis
      using False digit_char [of "n mod 10"]
      by (simp add: show_nat.simps [of n] parse_digits_snoc zdiv_int zmod_int)
  qed
qed

lemma takeWhile_append_stop: "\<not> P y \<Longrightarrow> takeWhile P (xs @ y # ys) = takeWhile P xs"
  by (induction xs) auto

lemma dropWhile_append_stop: "\<not> P y \<Longrightarrow> dropWhile P (xs @ y # ys) = dropWhile P xs @ y # ys"
  by (induction xs) auto

lemma dropWhile_append_nonempty:
  "dropWhile P xs \<noteq> [] \<Longrightarrow> dropWhile P (xs @ ys) = dropWhile P xs @ ys"
  by (induction xs) auto

lemma read_word_append:
  assumes r: "read_word l = Some (w, s1)" and x: "isspace x"
  shows "read_word (l @ x # rest) = Some (w, s1 @ x # rest)"
proof -
  let ?t = "dropWhile isspace l"
  from r have ne: "?t \<noteq> []" and w: "w = takeWhile (\<lambda>c. \<not> isspace c) ?t"
    and s1: "s1 = dropWhile (\<lambda>c. \<not> isspace c) ?t"
    by (auto simp: read_word_def Let_def split: if_splits)
  have "dropWhile isspace (l @ x # rest) = ?t @ x # rest"
    using ne by (rule dropWhile_append_nonempty)
  moreover have "takeWhile (\<lambda>c. \<not> isspace c) (?t @ x # rest) = w"
    unfolding w using x by (intro takeWhile_append_stop) simp
  moreover have "dropWhile (\<lambda>c. \<not> isspace c) (?t @ x # rest) = s1 @ x # rest"
    unfolding s1 using x by (intro dropWhile_append_stop) simp
  ultimately show ?thesis
    using ne by (simp add: read_word_def Let_def)
qed

lemma read_sign_append:
  "t \<noteq> [] \<Longrightarrow> read_sign (t @ ys) = (fst (read_sign t), snd (read_sign t) @ ys)"
  by (cases t) (auto simp: read_sign_def)

lemma read_ll_append:
  assumes r: "read_ll s1 = Some (f, s2)" and x: "\<not> isdigit x"
  shows "read_ll (s1 @ x # rest) = Some (f, s2 @ x # rest)"
proof -
  let ?t = "dropWhile isspace s1"
  obtain neg t2 where rs: "read_sign ?t = (neg, t2)" by (cases "read_sign ?t")
  have ne: "?t \<noteq> []"
  proof
    assume "?t = []"
    with r show False by (simp add: read_ll_def read_sign_def)
  qed
  have d: "dropWhile isspace (s1 @ x # rest) = ?t @ x # rest"
    using ne by (rule dropWhile_append_nonempty)
  have rs': "read_sign (?t @ x # rest) = (neg, t2 @ x # rest)"
    using read_sign_append [OF ne, of "x # rest"] rs by simp
  have tk: "takeWhile isdigit (t2 @ x # rest) = takeWhile isdigit t2"
    using x by (rule takeWhile_append_stop)
  have dr: "dropWhile isdigit (t2 @ x # rest) = dropWhile isdigit t2 @ x # rest"
    using x by (rule dropWhile_append_stop)
  from r rs have "s2 = dropWhile isdigit t2"
    by (auto simp: read_ll_def Let_def split: if_splits)
  with r rs show ?thesis
    unfolding read_ll_def d rs' by (simp add: Let_def tk dr split: if_splits)
qed

lemma read_word_skip:
  "\<forall>c\<in>set sp. isspace c \<Longrightarrow> read_word (sp @ s) = read_word s"
  by (simp add: read_word_def dropWhile_append2)

lemma readEntries_skip:
  "\<forall>c\<in>set sp. isspace c \<Longrightarrow> readEntries (sp @ s) = readEntries s"
  by (simp add: readEntries.simps [of "sp @ s"] readEntries.simps [of s] read_word_skip)

lemma readEntries_line:
  assumes p: "parseLine l = Some (w, f)"
  shows "readEntries (l @ CHR 0x0A # rest) = (w, f) # readEntries rest"
proof -
  from p obtain s1 s2 where rw: "read_word l = Some (w, s1)" and rl: "read_ll s1 = Some (f, s2)"
    and bl: "dropWhile isspace s2 = []"
    by (auto simp: parseLine_def split: option.splits if_splits)
  have 1: "read_word (l @ CHR 0x0A # rest) = Some (w, s1 @ CHR 0x0A # rest)"
    using rw by (rule read_word_append) simp
  have 2: "read_ll (s1 @ CHR 0x0A # rest) = Some (f, s2 @ CHR 0x0A # rest)"
    using rl by (rule read_ll_append) simp
  have "\<forall>c\<in>set (s2 @ [CHR 0x0A]). isspace c"
    using bl by (auto simp: dropWhile_eq_Nil_conv)
  then have "readEntries ((s2 @ [CHR 0x0A]) @ rest) = readEntries rest"
    by (rule readEntries_skip)
  then show ?thesis
    by (simp add: readEntries.simps [of "l @ CHR 0x0A # rest"] 1 2)
qed

lemma readEntries_lines:
  "\<forall>l\<in>set ls. parseLine l \<noteq> None \<Longrightarrow>
   readEntries (concat (map (\<lambda>l. l @ [CHR 0x0A]) ls) @ rest)
     = map (\<lambda>l. the (parseLine l)) ls @ readEntries rest"
proof (induction ls)
  case Nil
  then show ?case by simp
next
  case (Cons l ls)
  then obtain w f where p: "parseLine l = Some (w, f)" by auto
  show ?case
    using readEntries_line [OF p, of "concat (map (\<lambda>l. l @ [CHR 0x0A]) ls) @ rest"]
      Cons.IH Cons.prems p by simp
qed

lemma read_sign_digits:
  "read_sign (show_nat n) = (False, show_nat n)"
proof -
  obtain c r where cr: "show_nat n = c # r"
    using show_nat_nonempty [of n] by (cases "show_nat n") auto
  then have "isdigit c" using show_nat_digits [of n] by simp
  then have "c \<noteq> CHR ''-''" "c \<noteq> CHR ''+''"
    by (auto simp: isdigit_iff)
  with cr show ?thesis by (simp add: read_sign_def)
qed

lemma read_ll_digits:
  assumes sg: "read_sign (dropWhile isspace s) = (neg, ds)"
    and ds: "\<forall>c\<in>set ds. isdigit c" "ds \<noteq> []"
    and v: "v = (if neg then - parse_digits ds else parse_digits ds)"
    and rng: "- (2 ^ 63) \<le> v" "v < 2 ^ 63"
  shows "read_ll s = Some (word_of_int v, [])"
proof -
  have tk: "takeWhile isdigit ds = ds" using ds(1) by (simp add: takeWhile_eq_all_conv)
  have dr: "dropWhile isdigit ds = []" using ds(1) by (simp add: dropWhile_eq_Nil_conv)
  have "read_ll s =
      (if ds = [] then None else if v < - (2 ^ 63) \<or> 2 ^ 63 \<le> v then None
       else Some (word_of_int v, []))"
    unfolding read_ll_def sg by (simp only: prod.case Let_def tk dr v)
  also have "\<dots> = Some (word_of_int v, [])"
    using ds(2) rng by simp
  finally show ?thesis .
qed

lemma read_ll_show: "read_ll (CHR '' '' # show_ll f) = Some (f, [])"
proof -
  have rng: "- (2 ^ 63) \<le> sint f" "sint f < 2 ^ 63"
    using sint_ge [of f] sint_lt [of f] by simp_all
  have "read_ll (CHR '' '' # show_ll f) = Some (word_of_int (sint f), [])"
  proof (cases "sint f < 0")
    case True
    let ?n = "nat (- sint f)"
    have "dropWhile isspace (CHR '' '' # show_ll f) = CHR ''-'' # show_nat ?n"
      using True by (simp add: show_ll_def isspace_def)
    then have sg: "read_sign (dropWhile isspace (CHR '' '' # show_ll f)) = (True, show_nat ?n)"
      by (simp add: read_sign_def)
    have v: "sint f = (if True then - parse_digits (show_nat ?n) else parse_digits (show_nat ?n))"
      using True by (simp add: parse_show_nat)
    show ?thesis
      by (rule read_ll_digits [OF sg show_nat_digits show_nat_nonempty v rng])
  next
    case False
    let ?n = "nat (sint f)"
    obtain c r where cr: "show_nat ?n = c # r"
      using show_nat_nonempty [of ?n] by (cases "show_nat ?n") auto
    then have "isdigit c" using show_nat_digits [of ?n] by simp
    then have "\<not> isspace c" by (rule isdigit_not_space)
    then have "dropWhile isspace (CHR '' '' # show_ll f) = show_nat ?n"
      using False cr by (simp add: show_ll_def)
    then have sg: "read_sign (dropWhile isspace (CHR '' '' # show_ll f)) = (False, show_nat ?n)"
      by (simp add: read_sign_digits)
    have v: "sint f = (if False then - parse_digits (show_nat ?n) else parse_digits (show_nat ?n))"
      using False by (simp add: parse_show_nat)
    show ?thesis
      by (rule read_ll_digits [OF sg show_nat_digits show_nat_nonempty v rng])
  qed
  then show ?thesis by simp
qed

lemma parseLine_entryLine:
  assumes w: "w \<noteq> []" "\<forall>c\<in>set w. \<not> isspace c"
  shows "parseLine (entryLine (w, f)) = Some (w, f)"
proof -
  obtain c r where cr: "w = c # r" using w(1) by (cases w) auto
  have "dropWhile isspace (w @ CHR '' '' # show_ll f) = w @ CHR '' '' # show_ll f"
    using w(2) cr by simp
  moreover have "takeWhile (\<lambda>c. \<not> isspace c) (w @ CHR '' '' # show_ll f) = w"
    using w(2) by (simp add: takeWhile_append_stop takeWhile_eq_all_conv)
  moreover have "dropWhile (\<lambda>c. \<not> isspace c) (w @ CHR '' '' # show_ll f) = CHR '' '' # show_ll f"
    using w(2) by (simp add: dropWhile_append_stop dropWhile_eq_Nil_conv)
  ultimately have "read_word (entryLine (w, f)) = Some (w, CHR '' '' # show_ll f)"
    using w(1) by (simp add: read_word_def entryLine_def Let_def)
  then show ?thesis
    by (simp add: parseLine_def read_ll_show)
qed

lemmas file_eval =
  loadFromFile_def loadLoop.simps read_word_def read_ll_def read_sign_def isspace_def isdigit_def
  parse_digits_def digit_val_def loadEntry_def insertIntoTrie_def saveToFile_def savedIndices_def
  saveLine_def show_ll_def show_nat.simps parseLine_def knownEntries_def spec_load_def




subsection \<open>The round trip\<close>

lemma digit_chars:
  "char_of (48 :: nat) = CHR ''0''" "char_of (49 :: nat) = CHR ''1''"
  "char_of (50 :: nat) = CHR ''2''" "char_of (51 :: nat) = CHR ''3''"
  "char_of (52 :: nat) = CHR ''4''" "char_of (53 :: nat) = CHR ''5''"
  "char_of (54 :: nat) = CHR ''6''" "char_of (55 :: nat) = CHR ''7''"
  "char_of (56 :: nat) = CHR ''8''" "char_of (57 :: nat) = CHR ''9''"
  by code_simp+

lemma trimTopK_Some: "0 \<le> k \<Longrightarrow> \<exists>v'. trimTopK k v = Some v'"
  by (simp add: trimTopK_def)

lemma updateTopKWalk_Some: "0 \<le> k \<Longrightarrow> \<exists>t'. updateTopKWalk rh k idx cs t = Some t'"
proof (induction cs arbitrary: t)
  case Nil
  then show ?case by (cases t) simp
next
  case (Cons c cs)
  obtain m w v where t: "t = Node m w v" by (cases t)
  define child where "child = (case m c of None \<Rightarrow> newTrieNode | Some t \<Rightarrow> t)"
  define v2 where "v2 = sort_by rh (if idx \<in> set (topK child) then topK child else topK child @ [idx])"
  obtain v3 where v3: "trimTopK k v2 = Some v3"
    using trimTopK_Some [OF Cons.prems] by blast
  obtain child' where
    "updateTopKWalk rh k idx cs (Node (children child) (wordIndex child) v3) = Some child'"
    using Cons.IH [OF Cons.prems] by blast
  with v3 show ?case
    unfolding t updateTopKWalk.simps child_def [symmetric] Let_def v2_def [symmetric] by simp
qed

lemma updateTopKForWord_Some:
  "0 \<le> perNodeK e \<Longrightarrow> \<exists>e'. updateTopKForWord w idx e = Some e'"
  using updateTopKWalk_Some [of "perNodeK e" "higher (freqs e) (dict e)" idx w "root e"]
  by (auto simp: updateTopKForWord_def)

lemma registry_notin_None:
  assumes reg: "registry_ok e" and w: "w \<notin> set (dict e)"
  shows "wordToIndex e w = None"
proof (cases "wordToIndex e w")
  case (Some i)
  then have "0 \<le> i" "i < int (length (dict e))" "dict e ! nat i = w"
    using reg unfolding registry_ok_def by blast+
  then have "w \<in> set (dict e)" by (metis nat_less_iff nth_mem)
  with w show ?thesis by simp
qed simp

lemma loadEntry_fresh:
  assumes reg: "registry_ok e" and w: "w \<notin> set (dict e)" and k: "0 \<le> perNodeK e"
  shows "\<exists>e'. loadEntry w f e = Some e' \<and> dict e' = dict e @ [w] \<and> freqs e' = freqs e @ [f]
     \<and> wordSeen e' = wordSeen e @ [True] \<and> perNodeK e' = perNodeK e"
proof -
  let ?n = "length (dict e)"
  have len: "length (freqs e) = ?n" "length (wordSeen e) = ?n"
    using reg by (simp_all add: registry_ok_def)
  let ?e1 = "e\<lparr>dict := dict e @ [w], freqs := freqs e @ [0], wordSeen := wordSeen e @ [False],
      wordToIndex := (wordToIndex e)(w \<mapsto> int ?n)\<rparr>"
  have ens: "ensureWordIndex w e = (int ?n, ?e1)"
    using registry_notin_None [OF reg w] by (simp add: ensureWordIndex_def Let_def)
  let ?e2 = "?e1\<lparr>freqs := (freqs ?e1)[nat (int ?n) := f],
      root := createPath w (int ?n) (root ?e1)\<rparr>"
  have "0 \<le> perNodeK ?e2" using k by simp
  then obtain e3 where e3: "updateTopKForWord w (int ?n) ?e2 = Some e3"
    using updateTopKForWord_Some by blast
  note fl = updateTopKForWord_fields [OF e3]
  have "loadEntry w f e = Some (e3\<lparr>wordSeen := (wordSeen e3)[nat (int ?n) := True]\<rparr>)"
    using ens e3 by (simp add: loadEntry_def insertIntoTrie_def)
  moreover have "(freqs e @ [0])[?n := f] = freqs e @ [f]"
    using len by (simp add: list_update_append)
  moreover have "(wordSeen e @ [False])[?n := True] = wordSeen e @ [True]"
    using len by (simp add: list_update_append)
  ultimately show ?thesis
    using fl by simp
qed

lemma loadEntries_fresh:
  "engine_ok e \<Longrightarrow> 0 \<le> perNodeK e \<Longrightarrow> distinct (map fst es)
   \<Longrightarrow> fst ` set es \<inter> set (dict e) = {} \<Longrightarrow> [] \<notin> fst ` set es
   \<Longrightarrow> \<exists>e'. loadEntries es e = Some e' \<and> dict e' = dict e @ map fst es
          \<and> freqs e' = freqs e @ map snd es
          \<and> wordSeen e' = wordSeen e @ replicate (length es) True"
proof (induction es arbitrary: e)
  case Nil
  then show ?case by simp
next
  case (Cons a es)
  obtain w f where a: "a = (w, f)" by (cases a)
  have reg: "registry_ok e" using Cons.prems(1) by (simp add: engine_ok_def)
  have w: "w \<notin> set (dict e)" "w \<noteq> []"
    using Cons.prems(4,5) a by auto
  obtain e1 where e1: "loadEntry w f e = Some e1" and d1: "dict e1 = dict e @ [w]"
    and f1: "freqs e1 = freqs e @ [f]" and s1: "wordSeen e1 = wordSeen e @ [True]"
    and k1: "perNodeK e1 = perNodeK e"
    using loadEntry_fresh [OF reg w(1) Cons.prems(2)] by blast
  have ok1: "engine_ok e1" by (rule loadEntry_ok [OF Cons.prems(1) w(2) e1])
  have "fst ` set es \<inter> set (dict e1) = {}"
    using Cons.prems(3,4) a d1 by auto
  moreover have "distinct (map fst es)" "[] \<notin> fst ` set es" "0 \<le> perNodeK e1"
    using Cons.prems(2,3,5) k1 by auto
  ultimately obtain e' where "loadEntries es e1 = Some e'" "dict e' = dict e1 @ map fst es"
    "freqs e' = freqs e1 @ map snd es" "wordSeen e' = wordSeen e1 @ replicate (length es) True"
    using Cons.IH [OF ok1] by blast
  then show ?case
    using e1 d1 f1 s1 a by (simp add: replicate_append_same)
qed

lemma knownEntries_all_seen:
  assumes "dict e = map fst es" "freqs e = map snd es" "wordSeen e = replicate (length es) True"
  shows "knownEntries e = es"
proof -
  have "filter (\<lambda>i. wordSeen e ! i) [0..<length es] = [0..<length es]"
    using assms(3) by (simp add: filter_id_conv)
  then have "knownEntries e = map (\<lambda>i. (map fst es ! i, map snd es ! i)) [0..<length es]"
    using assms by (simp add: knownEntries_def)
  also have "\<dots> = es"
    by (rule nth_equalityI) simp_all
  finally show ?thesis .
qed

lemma set_savedIndices:
  "set (savedIndices e) = {i. i < length (dict e) \<and> wordSeen e ! i}"
  by (auto simp: savedIndices_def)

lemma distinct_savedIndices: "distinct (savedIndices e)"
  by (simp add: savedIndices_def distinct_sort_by)

lemma set_knownEntries:
  "set (knownEntries e) = (\<lambda>i. (dict e ! i, freqs e ! i)) ` {i. i < length (dict e) \<and> wordSeen e ! i}"
  by (auto simp: knownEntries_def)

lemma text_order_strict_total:
  fixes d :: "string list"
  assumes "distinct d"
  shows "strict_total_on {i. i < length d} (\<lambda>a b. d ! a < d ! b)"
  unfolding strict_total_on_def
proof (intro conjI ballI impI)
  fix x y
  assume "x \<in> {i. i < length d}" "y \<in> {i. i < length d}" "x \<noteq> y"
  then have "d ! x \<noteq> d ! y"
    using assms by (simp add: nth_eq_iff_index_eq)
  then show "d ! x < d ! y \<or> d ! y < d ! x" by auto
qed auto

lemma saved_entries_sorted:
  assumes reg: "registry_ok e"
  shows "sorted_wrt (\<lambda>a b. fst a < fst b) (map (\<lambda>i. (dict e ! i, freqs e ! i)) (savedIndices e))"
proof -
  have dist: "distinct (dict e)" using reg by (simp add: registry_ok_def)
  have "sorted_wrt (\<lambda>a b. dict e ! a < dict e ! b) (savedIndices e)"
    unfolding savedIndices_def
    by (rule sorted_sort_by [OF text_order_strict_total [OF dist]]) auto
  then show ?thesis
    by (simp add: sorted_wrt_map)
qed

lemma saved_content_by_known_set:
  assumes reg: "registry_ok e" and reg': "registry_ok e'"
    and same: "set (knownEntries e) = set (knownEntries e')"
  shows "saveToFile w e = saveToFile w e'"
proof -
  let ?L = "\<lambda>e. map (\<lambda>i. (dict e ! i, freqs e ! i)) (savedIndices e)"
  let ?lt = "\<lambda>a b :: string \<times> freq. fst a < fst b"
  have set_L: "set (?L e) = set (knownEntries e)" for e
    by (simp add: set_savedIndices set_knownEntries)
  have texts: "fst a \<noteq> fst b"
    if a: "a \<in> set (?L e')" and b: "b \<in> set (?L e')" and ab: "a \<noteq> b" for a b
  proof -
    obtain i j where i: "i \<in> set (savedIndices e')" "a = (dict e' ! i, freqs e' ! i)"
      and j: "j \<in> set (savedIndices e')" "b = (dict e' ! j, freqs e' ! j)"
      using a b by auto
    have "i \<noteq> j" using ab i j by auto
    moreover have "i < length (dict e')" "j < length (dict e')"
      using i(1) j(1) by (simp_all add: set_savedIndices)
    moreover have "distinct (dict e')" using reg' by (simp add: registry_ok_def)
    ultimately show ?thesis
      using i(2) j(2) by (simp add: nth_eq_iff_index_eq)
  qed
  have st: "strict_total_on (set (?L e')) ?lt"
    unfolding strict_total_on_def
  proof (intro conjI ballI impI)
    fix x y
    assume "x \<in> set (?L e')" "y \<in> set (?L e')" "x \<noteq> y"
    then have "fst x \<noteq> fst y" by (rule texts)
    then show "fst x < fst y \<or> fst y < fst x" by auto
  qed auto
  have "?L e' = ?L e"
    by (rule sorted_wrt_unique [OF st _ saved_entries_sorted [OF reg'] saved_entries_sorted [OF reg]])
      (simp_all only: set_L same subset_refl)
  moreover have "saveLine e = (\<lambda>i. entryLine (dict e ! i, freqs e ! i) @ [CHR 0x0A])" for e
    by (rule ext) (simp add: saveLine_def entryLine_def)
  then have "concat (map (saveLine e) (savedIndices e))
      = concat (map (\<lambda>en. entryLine en @ [CHR 0x0A]) (?L e))" for e
    by (simp add: comp_def)
  ultimately show ?thesis
    by (simp add: saveToFile_def del: map_map)
qed

text \<open>
  Claim C7, as amended. For a reachable engine whose known texts hold no white space,
  \<open>saveToFile\<close> writes a content that \<open>loadFromFile\<close> reads into a fresh engine (of any
  capacity that is not negative) completely, and the known entries of the loaded engine
  are, as a set, the known entries of the saved one; the loaded registry holds the known
  texts and no other, so the texts that are not known were left out of the file. The
  content written depends on the set of known entries alone, not on the order of the
  calls (lemma \<open>saved_content_by_known_set\<close>).
\<close>
theorem save_load_round_trip:
  assumes "reachable e"
    and "\<forall>i<length (dict e). wordSeen e ! i \<longrightarrow> (\<forall>c\<in>set (dict e ! i). \<not> isspace c)"
    and "0 \<le> k"
  shows "\<exists>content e'. saveToFile True e = (True, Some content)
     \<and> loadFromFile (Some content) (AutocompleteEngine k) = Some (True, e')
     \<and> set (knownEntries e') = set (knownEntries e)
     \<and> set (dict e') = fst ` set (knownEntries e)"
proof -
  have ok: "engine_ok e" using assms(1) by (rule reachable_ok)
  then have reg: "registry_ok e" by (simp add: engine_ok_def)
  have dist: "distinct (dict e)" and ne: "[] \<notin> set (dict e)"
    using reg by (simp_all add: registry_ok_def)
  define es where "es = map (\<lambda>i. (dict e ! i, freqs e ! i)) (savedIndices e)"
  define content where "content = concat (map (saveLine e) (savedIndices e))"
  have sv: "saveToFile True e = (True, Some content)"
    by (simp add: saveToFile_def content_def)
  have in_range: "i < length (dict e) \<and> wordSeen e ! i" if "i \<in> set (savedIndices e)" for i
    using that by (simp add: set_savedIndices)
  have set_es: "set es = set (knownEntries e)"
    by (simp add: es_def set_savedIndices set_knownEntries)
  have "saveLine e = (\<lambda>i. entryLine (dict e ! i, freqs e ! i) @ [CHR 0x0A])"
    by (rule ext) (simp add: saveLine_def entryLine_def)
  then have lines: "content = concat (map (\<lambda>l. l @ [CHR 0x0A]) (map entryLine es)) @ []"
    by (simp add: content_def es_def comp_def)
  have wf: "parseLine (entryLine en) = Some en" if mem: "en \<in> set es" for en
  proof -
    obtain i where i: "i \<in> set (savedIndices e)" and en: "en = (dict e ! i, freqs e ! i)"
      using mem by (auto simp: es_def)
    have "dict e ! i \<in> set (dict e)" using in_range [OF i] by simp
    then have "dict e ! i \<noteq> []" using ne by auto
    moreover have "\<forall>c\<in>set (dict e ! i). \<not> isspace c"
      using assms(2) in_range [OF i] by blast
    ultimately show ?thesis
      unfolding en by (rule parseLine_entryLine)
  qed
  then have "\<forall>l\<in>set (map entryLine es). parseLine l \<noteq> None" by auto
  then have "readEntries content = map (\<lambda>l. the (parseLine l)) (map entryLine es) @ readEntries []"
    unfolding lines by (rule readEntries_lines)
  also have "map (\<lambda>l. the (parseLine l)) (map entryLine es) = es"
    using wf by (simp add: map_idI)
  finally have rd: "readEntries content = es"
    by (simp add: readEntries.simps [of "[]"] read_word_def)
  have inj: "inj_on (\<lambda>i. dict e ! i) (set (savedIndices e))"
    using dist in_range by (auto simp: inj_on_def nth_eq_iff_index_eq)
  have dist_es: "distinct (map fst es)"
    using distinct_savedIndices inj by (simp add: es_def comp_def distinct_map)
  have ne_es: "[] \<notin> fst ` set es"
  proof
    assume "[] \<in> fst ` set es"
    then obtain i where "i \<in> set (savedIndices e)" "dict e ! i = []"
      by (auto simp: es_def)
    then have "[] \<in> set (dict e)" using in_range nth_mem by metis
    with ne show False by simp
  qed
  have "\<exists>e'. loadEntries es (AutocompleteEngine k) = Some e'
      \<and> dict e' = dict (AutocompleteEngine k) @ map fst es
      \<and> freqs e' = freqs (AutocompleteEngine k) @ map snd es
      \<and> wordSeen e' = wordSeen (AutocompleteEngine k) @ replicate (length es) True"
    by (rule loadEntries_fresh [OF engine_ok_init _ dist_es _ ne_es])
      (simp_all add: AutocompleteEngine_def assms(3))
  then obtain e' where ld: "loadEntries es (AutocompleteEngine k) = Some e'"
    and d: "dict e' = map fst es" and f: "freqs e' = map snd es"
    and s: "wordSeen e' = replicate (length es) True"
    by (auto simp: AutocompleteEngine_def)
  have "loadFromFile (Some content) (AutocompleteEngine k) = Some (True, e')"
    using ld rd by (simp add: loadFromFile_def loadLoop_readEntries)
  moreover have "knownEntries e' = es"
    by (rule knownEntries_all_seen [OF d f s])
  ultimately show ?thesis
    using sv set_es d by auto
qed

theorem save_load_round_trip_witness:
  "\<exists>content e'.
     saveToFile True (the (run [Insert ''cat'' 5, Insert ''car'' 3, Remove ''cat'']
        (AutocompleteEngine 10))) = (True, Some content)
     \<and> loadFromFile (Some content) (AutocompleteEngine 12) = Some (True, e')
     \<and> set (knownEntries e') = {(''car'', 3)}"
proof -
  let ?e = "the (run [Insert ''cat'' 5, Insert ''car'' 3, Remove ''cat''] (AutocompleteEngine 10))"
  have r: "reachable ?e"
    by (rule reachable_run) (simp add: engine_eval)
  have e: "dict ?e = [''cat'', ''car'']" "wordSeen ?e = [False, True]" "freqs ?e = [0, 3]"
    by (simp_all add: engine_eval)
  have w: "\<forall>i<length (dict ?e). wordSeen ?e ! i \<longrightarrow> (\<forall>c\<in>set (dict ?e ! i). \<not> isspace c)"
    unfolding e by (simp add: less_Suc_eq isspace_def)
  have k: "set (knownEntries ?e) = {(''car'', 3)}"
    unfolding knownEntries_def e by simp
  show ?thesis
    using save_load_round_trip [OF r w, of 12] unfolding k by auto
qed

text \<open>
  The claim as the specification states it fails for a text that holds a blank, which
  \<open>insert\<close> accepts: the saved line \<open>a b 1\<close> reads back as the word \<open>a\<close> followed by
  no number, and the fresh engine loads nothing.
\<close>
theorem round_trip_counterexample:
  "knownEntries (the (run [Insert ''a b'' 1] (AutocompleteEngine 10))) = [(''a b'', 1)]
   \<and> saveToFile True (the (run [Insert ''a b'' 1] (AutocompleteEngine 10)))
       = (True, Some ''a b 1\<newline>'')
   \<and> knownEntries (snd (the (loadFromFile (Some ''a b 1\<newline>'') (AutocompleteEngine 10)))) = []"
  by (simp add: file_eval engine_eval digit_chars)

section \<open>Inserting twice\<close>


lemma sort_by_sorted:
  assumes st: "strict_total_on S lt" and sub: "set xs \<subseteq> S" and so: "sorted_wrt lt xs"
  shows "sort_by lt xs = xs"
  by (rule sort_by_unique [OF st sub sorted_wrt_distinct [OF st sub so] so]) simp


















section \<open>The capacity\<close>

lemma lists_within_Node:
  "lists_within k (Node m w v) \<longleftrightarrow>
     int (length v) \<le> k \<and> (\<forall>c t. m c = Some t \<longrightarrow> lists_within k t)"
proof
  assume h: "lists_within k (Node m w v)"
  have "int (length v) \<le> k"
    using h [unfolded lists_within_def, rule_format, of "[]" "Node m w v"] by simp
  moreover have "lists_within k t" if c: "m c = Some t" for c t
    unfolding lists_within_def
  proof (intro allI impI)
    fix q n
    assume "nodeAt t q = Some n"
    then have "nodeAt (Node m w v) (c # q) = Some n" using c by simp
    then show "int (length (topK n)) \<le> k"
      using h unfolding lists_within_def by blast
  qed
  ultimately show "int (length v) \<le> k \<and> (\<forall>c t. m c = Some t \<longrightarrow> lists_within k t)" by blast
next
  assume h: "int (length v) \<le> k \<and> (\<forall>c t. m c = Some t \<longrightarrow> lists_within k t)"
  show "lists_within k (Node m w v)"
    unfolding lists_within_def
  proof (intro allI impI)
    fix q n
    assume n: "nodeAt (Node m w v) q = Some n"
    show "int (length (topK n)) \<le> k"
    proof (cases q)
      case Nil
      with n h show ?thesis by auto
    next
      case (Cons c q')
      with n obtain t where "m c = Some t" "nodeAt t q' = Some n"
        by (auto split: option.splits)
      then show ?thesis using h unfolding lists_within_def by blast
    qed
  qed
qed

lemma lists_within_mono: "lists_within k t \<Longrightarrow> k \<le> k' \<Longrightarrow> lists_within k' t"
  unfolding lists_within_def by fastforce

lemma trimTopK_length: "trimTopK k v = Some v3 \<Longrightarrow> int (length v3) \<le> k"
  by (auto simp: trimTopK_def split: if_splits)

lemma updateTopKWalk_within:
  "lists_within k t \<Longrightarrow> updateTopKWalk rh k idx cs t = Some t' \<Longrightarrow> lists_within k t'"
proof (induction cs arbitrary: t t')
  case Nil
  obtain m w v where t: "t = Node m w v" by (cases t)
  with Nil show ?case by (auto simp: lists_within_Node)
next
  case (Cons c cs)
  obtain m w v where t: "t = Node m w v" by (cases t)
  define child where "child = (case m c of None \<Rightarrow> newTrieNode | Some t \<Rightarrow> t)"
  define v2 where "v2 = sort_by rh (if idx \<in> set (topK child) then topK child else topK child @ [idx])"
  obtain mc wc vc where child: "child = Node mc wc vc" by (cases child)
  from Cons.prems(2) obtain v3 child' where
    v3: "trimTopK k v2 = Some v3"
    and rec: "updateTopKWalk rh k idx cs (Node mc wc v3) = Some child'"
    and t': "t' = Node (m(c \<mapsto> child')) w v"
    unfolding t updateTopKWalk.simps child_def [symmetric] Let_def v2_def [symmetric]
    by (auto simp: child split: option.splits)
  have gc: "\<forall>c t. mc c = Some t \<longrightarrow> lists_within k t"
  proof (cases "m c")
    case None
    then have "mc = (\<lambda>c. None)" using child by (simp add: child_def newTrieNode_def)
    then show ?thesis by simp
  next
    case (Some tc)
    then have "lists_within k child"
      using Cons.prems(1) unfolding t lists_within_Node child_def by simp
    then show ?thesis unfolding child lists_within_Node by blast
  qed
  have "lists_within k (Node mc wc v3)"
    using gc trimTopK_length [OF v3] unfolding lists_within_Node by blast
  then have "lists_within k child'"
    using Cons.IH rec by blast
  then show ?case
    using Cons.prems(1) unfolding t t' lists_within_Node by auto
qed

lemma createPath_within:
  "0 \<le> k \<Longrightarrow> lists_within k t \<Longrightarrow> lists_within k (createPath cs idx t)"
proof (induction cs arbitrary: t)
  case Nil
  obtain m w v where t: "t = Node m w v" by (cases t)
  with Nil show ?case by (simp add: lists_within_Node)
next
  case (Cons c cs)
  obtain m w v where t: "t = Node m w v" by (cases t)
  define child where "child = (case m c of None \<Rightarrow> newTrieNode | Some t \<Rightarrow> t)"
  have "lists_within k child"
    using Cons.prems unfolding t lists_within_Node child_def
    by (auto simp: newTrieNode_def lists_within_Node split: option.splits)
  then have "lists_within k (createPath cs idx child)"
    using Cons.IH Cons.prems(1) by blast
  moreover have "createPath (c # cs) idx t = Node (m(c \<mapsto> createPath cs idx child)) w v"
    by (simp add: t child_def)
  ultimately show ?case
    using Cons.prems unfolding t by (simp add: lists_within_Node)
qed

lemma clearWordIndex_within:
  "lists_within k t \<Longrightarrow> clearWordIndex cs t = Some t' \<Longrightarrow> lists_within k t'"
proof (induction cs arbitrary: t t')
  case Nil
  obtain m w v where t: "t = Node m w v" by (cases t)
  with Nil show ?case by (auto simp: lists_within_Node)
next
  case (Cons c cs)
  obtain m w v where t: "t = Node m w v" by (cases t)
  from Cons.prems(2) obtain child child' where
    c: "m c = Some child" "clearWordIndex cs child = Some child'" "t' = Node (m(c \<mapsto> child')) w v"
    unfolding t by (auto split: option.splits)
  have "lists_within k child"
    using Cons.prems(1) c(1) unfolding t lists_within_Node by blast
  then have "lists_within k child'"
    using Cons.IH c(2) by blast
  then show ?case
    using Cons.prems(1) unfolding t c(3) lists_within_Node by auto
qed

lemma length_remove1_le: "length (remove1 x xs) \<le> length xs"
  by (induction xs) auto

lemma removeIndexFromPath_within:
  "lists_within k t \<Longrightarrow> lists_within k (removeIndexFromPath cs idx t)"
proof (induction cs arbitrary: t)
  case Nil
  then show ?case by simp
next
  case (Cons c cs)
  obtain m w v where t: "t = Node m w v" by (cases t)
  show ?case
  proof (cases "m c")
    case None
    with Cons.prems t show ?thesis by simp
  next
    case (Some child)
    obtain mc wc vc where child: "child = Node mc wc vc" by (cases child)
    have "lists_within k child"
      using Cons.prems Some unfolding t lists_within_Node by blast
    then have "lists_within k (Node mc wc (remove1 idx vc))"
      unfolding child lists_within_Node using length_remove1_le [of idx vc] by auto
    then have "lists_within k (removeIndexFromPath cs idx (Node mc wc (remove1 idx vc)))"
      by (rule Cons.IH)
    with Cons.prems Some show ?thesis
      by (simp add: t child lists_within_Node)
  qed
qed

lemma updateTopKForWord_within:
  "lists_within (perNodeK e) (root e) \<Longrightarrow> updateTopKForWord w idx e = Some e'
   \<Longrightarrow> lists_within (perNodeK e) (root e') \<and> perNodeK e' = perNodeK e"
  by (auto simp: updateTopKForWord_def split: option.splits intro: updateTopKWalk_within)

lemma ensureWordIndex_trie:
  "ensureWordIndex w e = (idx, e1) \<Longrightarrow> root e1 = root e \<and> perNodeK e1 = perNodeK e"
  by (auto simp: ensureWordIndex_def Let_def split: option.splits)

lemma loadEntry_within:
  assumes "0 \<le> perNodeK e" "lists_within (perNodeK e) (root e)" "loadEntry w f e = Some e'"
  shows "lists_within (perNodeK e) (root e') \<and> perNodeK e' = perNodeK e"
proof -
  obtain idx e1 where ens: "ensureWordIndex w e = (idx, e1)"
    by (cases "ensureWordIndex w e")
  note p = ensureWordIndex_trie [OF ens]
  let ?e2 = "e1\<lparr>freqs := (freqs e1)[nat idx := f], root := createPath w idx (root e1)\<rparr>"
  from assms(3) ens obtain e3 where
    upd: "updateTopKForWord w idx ?e2 = Some e3"
    and e': "e' = e3\<lparr>wordSeen := (wordSeen e3)[nat idx := True]\<rparr>"
    by (auto simp: loadEntry_def insertIntoTrie_def split: option.splits)
  have "lists_within (perNodeK ?e2) (root ?e2)"
    using assms(1,2) p by (simp add: createPath_within)
  then have "lists_within (perNodeK ?e2) (root e3) \<and> perNodeK e3 = perNodeK ?e2"
    by (rule updateTopKForWord_within [OF _ upd])
  then show ?thesis
    using p by (simp add: e')
qed

lemma loadEntries_within:
  "0 \<le> perNodeK e \<Longrightarrow> lists_within (perNodeK e) (root e) \<Longrightarrow> loadEntries es e = Some e'
   \<Longrightarrow> lists_within (perNodeK e) (root e') \<and> perNodeK e' = perNodeK e"
proof (induction es arbitrary: e)
  case Nil
  then show ?case by simp
next
  case (Cons a es)
  obtain w f where a: "a = (w, f)" by (cases a)
  from Cons.prems(3) obtain e1 where
    e1: "loadEntry w f e = Some e1" and rest: "loadEntries es e1 = Some e'"
    by (auto simp: a split: option.splits)
  have 1: "lists_within (perNodeK e) (root e1)" "perNodeK e1 = perNodeK e"
    using loadEntry_within [OF Cons.prems(1,2) e1] by simp_all
  then show ?case
    using Cons.IH [of e1, OF _ _ rest] Cons.prems(1) by simp
qed

lemma exec_within:
  assumes k: "0 \<le> perNodeK e" and w: "lists_within (perNodeK e) (root e)"
    and nl: "never_lowered (perNodeK e) (c # cs)" and ex: "exec c e = Some e'"
  shows "0 \<le> perNodeK e' \<and> lists_within (perNodeK e') (root e')
     \<and> never_lowered (perNodeK e') cs"
proof (cases c)
  case (Insert wd f)
  show ?thesis
  proof (cases "wd = []")
    case True
    with Insert ex k w nl show ?thesis by (simp add: insert_word_def)
  next
    case False
    obtain idx e1 where ens: "ensureWordIndex wd e = (idx, e1)"
      by (cases "ensureWordIndex wd e")
    from ex Insert False ens have upd: "updateTopKForWord wd idx
        (e1\<lparr>freqs := (freqs e1)[nat idx := freqs e1 ! nat idx + f],
            wordSeen := (wordSeen e1)[nat idx := True]\<rparr>) = Some e'"
      by (simp add: insert_word_def)
    show ?thesis
      using updateTopKForWord_within [OF _ upd] ensureWordIndex_trie [OF ens] k w nl Insert
      by simp
  qed
next
  case (UpdateFrequency wd f)
  show ?thesis
  proof (cases "wd = []")
    case True
    with UpdateFrequency ex k w nl show ?thesis by (simp add: updateFrequency_def)
  next
    case False
    obtain idx e1 where ens: "ensureWordIndex wd e = (idx, e1)"
      by (cases "ensureWordIndex wd e")
    from ex UpdateFrequency False ens have upd: "updateTopKForWord wd idx
        (e1\<lparr>freqs := (freqs e1)[nat idx := f],
            wordSeen := (wordSeen e1)[nat idx := True]\<rparr>) = Some e'"
      by (simp add: updateFrequency_def)
    show ?thesis
      using updateTopKForWord_within [OF _ upd] ensureWordIndex_trie [OF ens] k w nl
        UpdateFrequency
      by simp
  qed
next
  case (Remove wd)
  have "lists_within (perNodeK e) (root (remove wd e)) \<and> perNodeK (remove wd e) = perNodeK e"
    using w
    by (auto simp: remove_def Let_def split: option.splits
        intro: removeIndexFromPath_within clearWordIndex_within)
  with Remove ex k nl show ?thesis by auto
next
  case (SetPerNodeK k')
  with ex k w nl show ?thesis
    by (auto simp: setPerNodeK_def intro: lists_within_mono)
next
  case (LoadFromFile content)
  show ?thesis
  proof (cases content)
    case None
    with LoadFromFile ex k w nl show ?thesis by (simp add: loadFromFile_def)
  next
    case (Some s)
    with LoadFromFile ex have "loadEntries (readEntries s) e = Some e'"
      by (auto simp: loadFromFile_def loadLoop_readEntries split: option.splits)
    then have "lists_within (perNodeK e) (root e') \<and> perNodeK e' = perNodeK e"
      by (rule loadEntries_within [OF k w])
    then show ?thesis
      using k nl LoadFromFile by simp
  qed
qed

lemma run_within:
  "0 \<le> perNodeK e \<Longrightarrow> lists_within (perNodeK e) (root e) \<Longrightarrow> never_lowered (perNodeK e) cs
   \<Longrightarrow> run cs e = Some e' \<Longrightarrow> lists_within (perNodeK e') (root e')"
proof (induction cs arbitrary: e)
  case Nil
  then show ?case by simp
next
  case (Cons c cs)
  from Cons.prems(4) obtain e1 where
    e1: "exec c e = Some e1" and rest: "run cs e1 = Some e'"
    by (auto split: option.splits)
  have "0 \<le> perNodeK e1 \<and> lists_within (perNodeK e1) (root e1) \<and> never_lowered (perNodeK e1) cs"
    by (rule exec_within [OF Cons.prems(1,2,3) e1])
  then show ?case
    using Cons.IH [OF _ _ _ rest] by blast
qed

text \<open>
  Where the capacity is never lowered, every list stays within it: the lists exceed the
  capacity only after \<open>setPerNodeK\<close> has lowered it.
\<close>
lemma lists_within_capacity:
  assumes "0 \<le> k" and "never_lowered k cs" and "run cs (AutocompleteEngine k) = Some e"
    and "nodeAt (root e) p = Some n"
  shows "int (length (topK n)) \<le> perNodeK e"
proof -
  have "lists_within (perNodeK (AutocompleteEngine k)) (root (AutocompleteEngine k))"
    using assms(1) by (simp add: AutocompleteEngine_def newTrieNode_def lists_within_Node)
  then have "lists_within (perNodeK e) (root e)"
    using run_within [of "AutocompleteEngine k" cs e] assms(1,2,3)
    by (simp add: AutocompleteEngine_def)
  then show ?thesis
    using assms(4) unfolding lists_within_def by blast
qed

lemma reachable_sorted:
  "reachable e \<Longrightarrow> nodeAt (root e) p = Some n \<Longrightarrow>
     sorted_wrt (higher (freqs e) (dict e)) (topK n)"
  using engine_ok_node [OF reachable_ok] unfolding cache_ok_def by blast

text \<open>
  Claim C2 at its failing input: two words under \<open>a\<close> with capacity 10, then
  \<open>setPerNodeK(1)\<close>, which stores the new capacity and trims no list. The query returns two
  entries while the configured capacity is 1.
\<close>
theorem getTopK_exceeds_lowered_capacity:
  "map_option fst (getTopK ''a'' 5
      (the (run [Insert ''ab'' 1, Insert ''ac'' 2, SetPerNodeK 1] (AutocompleteEngine 10))))
     = Some [(''ac'', 2), (''ab'', 1)]
   \<and> perNodeK (the (run [Insert ''ab'' 1, Insert ''ac'' 2, SetPerNodeK 1] (AutocompleteEngine 10)))
     = 1"
  by (simp add: engine_eval)

text \<open>
  Claim C3 at its failing input: after the same calls the list of node \<open>a\<close> holds two
  indices, sorted, and the configured capacity is 1.
\<close>
theorem cache_longer_than_lowered_capacity:
  "map_option topK (nodeAt (root (the (run [Insert ''ab'' 1, Insert ''ac'' 2, SetPerNodeK 1]
      (AutocompleteEngine 10)))) ''a'') = Some [1, 0]
   \<and> perNodeK (the (run [Insert ''ab'' 1, Insert ''ac'' 2, SetPerNodeK 1] (AutocompleteEngine 10)))
     = 1"
  by (simp add: engine_eval)

end
